theory Spec2Isabelle
  imports Complex_Main "HOL-Library.Log_Nat"
begin

section \<open>Dashboard de Direcciones: the data-analysis contract of app.py\<close>

text \<open>
  The page is a script over one pandas DataFrame \<open>df\<close>.  Each computation of the
  script is embedded as a function of the table; widget calls that only render are left
  out.  Library calls (pandas, re, csv) are embedded by what they compute on the values
  the script passes to them; every such reading is stated where it is made.

  Strings.  A Python \<open>str\<close> is a sequence of code points.  The embedding uses
  \<open>string\<close> with one \<open>char\<close> per code point, so it covers the code points
  U+0000 to U+00FF (ASCII and Latin-1, which holds the accented letters of Spanish);
  \<open>CHR 0xD3\<close> is the letter O with acute accent.  \<open>str.lower\<close> maps this range
  into itself.
\<close>

subsection \<open>Strings\<close>

text \<open>
  \<open>str.lower()\<close> on U+0000..U+00FF: the letters A..Z and the Latin-1 capitals
  U+00C0..U+00DE (the multiplication sign U+00D7 apart) move up by 32; every other code
  point stays.
\<close>

definition lower_char :: "char \<Rightarrow> char" where
  "lower_char c =
     (let n = (of_char c :: nat) in
      if (65 \<le> n \<and> n \<le> 90) \<or> (192 \<le> n \<and> n \<le> 222 \<and> n \<noteq> 215)
      then char_of (n + 32) else c)"

definition str_lower :: "string \<Rightarrow> string" where
  "str_lower s = map lower_char s"

text \<open>\<open>s.startswith(w)\<close> and the substring test \<open>w in s\<close>.\<close>

fun startswith :: "string \<Rightarrow> string \<Rightarrow> bool" where
  "startswith s [] = True"
| "startswith [] (p # ps) = False"
| "startswith (c # cs) (p # ps) = (c = p \<and> startswith cs ps)"

fun str_in :: "string \<Rightarrow> string \<Rightarrow> bool" where
  "str_in w [] = (w = [])"
| "str_in w (c # cs) = (startswith (c # cs) w \<or> str_in w cs)"

subsection \<open>process_addresses (app.py, lines 39 to 49)\<close>

text \<open>
  The errors the script can raise: \<open>AttributeError\<close> from a method a value does not
  have, \<open>KeyError\<close> from indexing a frame, \<open>re.error\<close> from compiling the search
  term.
\<close>

datatype error = AttributeError | KeyError | ReError

text \<open>
  A column label of a frame read by \<open>pd.read_excel\<close>: the text of a text header
  cell, or the number or date of a numeric or date header cell (\<open>'k\<close> is the type of
  those values).  Only a text has the method \<open>lower\<close>.
\<close>

datatype 'k label = Text string | NonText 'k

text \<open>
  The word list of line 46, and the test \<open>any(word in col.lower() for word in ...)\<close>
  on a text label.
\<close>

definition address_words :: "string list" where
  "address_words = [''direccion'', ''address'', ''ubicacion'', ''domicilio'', ''calle'']"

definition any_word :: "string \<Rightarrow> bool" where
  "any_word col = list_ex (\<lambda>word. str_in word (str_lower col)) address_words"

text \<open>
  The \<open>for\<close> loop of lines 45 to 47, with \<open>address_columns\<close> as accumulator.  On a
  label that is not a text, \<open>col.lower()\<close> raises \<open>AttributeError\<close> and the loop
  ends there; nothing catches it.
\<close>

fun address_loop :: "'k label list \<Rightarrow> 'k label list \<Rightarrow> error + 'k label list" where
  "address_loop address_columns [] = Inr address_columns"
| "address_loop address_columns (Text col # cols) =
     address_loop (if any_word col then address_columns @ [Text col] else address_columns) cols"
| "address_loop address_columns (NonText k # cols) = Inl AttributeError"

text \<open>
  The script hands the function a DataFrame or \<open>None\<close>; the function reads only
  \<open>df.columns\<close>, so the embedding takes the column labels, and \<open>None\<close> for the
  absent frame.
\<close>

definition process_addresses :: "'k label list option \<Rightarrow> error + 'k label list option" where
  "process_addresses df =
     (case df of
        None \<Rightarrow> Inr None
      | Some cols \<Rightarrow> (case address_loop [] cols of Inl e \<Rightarrow> Inl e | Inr r \<Rightarrow> Inr (Some r)))"

subsection \<open>Tables\<close>

text \<open>
  A DataFrame as the script uses it: an index of \<open>nrows\<close> rows (\<open>len(df)\<close>) and an
  ordered list of columns (\<open>df.columns\<close>), each with its name, its dtype and one cell
  per row.  A cell is missing (\<open>NaN\<close>), a text, or another scalar (a number, a date);
  \<open>'v\<close> is the type of those other scalars, compared by HOL equality.  The dtype is
  what \<open>select_dtypes\<close> reads: \<open>object\<close>, a number dtype, or anything else.
  A DataFrame keeps every column as long as its index; \<open>wf_table\<close> says so.
\<close>

datatype 'v cell = NA | Str string | Val 'v

datatype dtype = Object | Number | Other

record 'v column =
  cname :: string
  ctype :: dtype
  cells :: "'v cell list"

record 'v table =
  nrows :: nat
  columns :: "'v column list"

definition wf_table :: "'v table \<Rightarrow> bool" where
  "wf_table df = list_all (\<lambda>c. length (cells c) = nrows df) (columns df)"


definition isnull :: "'v cell \<Rightarrow> bool" where
  "isnull x = (x = NA)"

definition dropna :: "'v cell list \<Rightarrow> 'v cell list" where
  "dropna xs = filter (\<lambda>x. \<not> isnull x) xs"

subsection \<open>Summary tab: missing cells and completeness (lines 88 to 94)\<close>

text \<open>\<open>df.isnull().sum().sum()\<close>: the missing cells of each column, summed over the columns.\<close>

definition missing_count :: "'v table \<Rightarrow> nat" where
  "missing_count df = sum_list (map (\<lambda>c. length (filter isnull (cells c))) (columns df))"

text \<open>
  Lines 92 to 94.  The metric is computed only under \<open>len(df) > 0\<close>.  The quotient is
  taken in exact rational arithmetic (the script computes it in binary floating point and
  prints one decimal).  HOL's \<open>x / 0\<close> is \<open>0\<close>, so the division by zero of the script
  is a result of its own: with rows and no column the divisor \<open>len(df) * len(df.columns)\<close>
  is \<open>0\<close> and the script divides by it (Python raises ZeroDivisionError on its own
  numbers, numpy scalars give \<open>nan\<close>).
\<close>

datatype metric = NotShown | DivisionByZero | Shown rat

definition completeness :: "'v table \<Rightarrow> metric" where
  "completeness df =
     (if nrows df > 0 then
        (if nrows df * length (columns df) = 0 then DivisionByZero
         else Shown ((1 - of_nat (missing_count df) / of_nat (nrows df * length (columns df))) * 100))
      else NotShown)"


subsection \<open>Geographic tab: valid, unique and duplicate addresses (lines 140 to 150)\<close>

text \<open>
  \<open>df[col].nunique()\<close> counts the distinct values that are not missing;
  \<open>len(df[col].dropna())\<close> counts the values that are not missing.  Python integers do
  not truncate, so the difference is taken in \<open>int\<close>.
\<close>

definition nunique :: "'v cell list \<Rightarrow> nat" where
  "nunique xs = length (remdups (dropna xs))"

definition address_metrics :: "'v column \<Rightarrow> int \<times> int \<times> int" where
  "address_metrics col =
     (let total = int (length (dropna (cells col)));
          unique = int (nunique (cells col));
          duplicates = total - unique
      in (total, unique, duplicates))"

subsection \<open>value_counts\<close>

text \<open>
  \<open>Series.value_counts()\<close> on values that are not missing: the library counts the
  values in a hash table, whose keys come out in the order of first appearance, and then
  sorts the table by descending count.  \<open>bump\<close> is one step of the counting and
  \<open>tally\<close> the whole pass.  The sort is the insertion sort \<open>sort_key\<close> on the
  negated count; it keeps equal counts in first-appearance order, which is what the
  library's sort gives on short inputs.  No theorem below depends on the order among equal
  counts.
\<close>

fun bump :: "'a \<Rightarrow> ('a \<times> nat) list \<Rightarrow> ('a \<times> nat) list" where
  "bump x [] = [(x, 1)]"
| "bump x ((y, n) # rest) = (if x = y then (y, Suc n) # rest else (y, n) # bump x rest)"

definition tally :: "'a list \<Rightarrow> ('a \<times> nat) list" where
  "tally xs = foldl (\<lambda>counts x. bump x counts) [] xs"

definition value_counts :: "'a list \<Rightarrow> ('a \<times> nat) list" where
  "value_counts xs = sort_key (\<lambda>(v, n). - int n) (tally xs)"

text \<open>Reading a count table (used in the proofs only).\<close>

fun cnt :: "('a \<times> nat) list \<Rightarrow> 'a \<Rightarrow> nat" where
  "cnt [] v = 0"
| "cnt ((y, n) # rest) v = (if v = y then n else cnt rest v)"

subsection \<open>Geographic tab: the most common words (lines 155 to 177)\<close>

text \<open>
  \<open>astype(str)\<close> on an object column (pandas 1 and 2): a text stays, a missing value
  becomes the text \<open>nan\<close>, any other scalar becomes its \<open>str()\<close>, which the
  embedding takes as the parameter \<open>fmt\<close>.  \<open>str_nat\<close> is \<open>str()\<close> on the
  natural numbers, for the examples.
\<close>

definition astype_str :: "('v \<Rightarrow> string) \<Rightarrow> 'v cell \<Rightarrow> string" where
  "astype_str fmt x = (case x of NA \<Rightarrow> ''nan'' | Str s \<Rightarrow> s | Val v \<Rightarrow> fmt v)"

function str_nat :: "nat \<Rightarrow> string" where
  "str_nat n = (if n < 10 then [char_of (48 + n)] else str_nat (n div 10) @ [char_of (48 + n mod 10)])"
  by pat_completeness auto
termination
  by (relation "measure id") auto

text \<open>
  \<open>str.isspace\<close> on U+0000..U+00FF: tab to carriage return, the separators U+001C to
  U+001F, the space, U+0085 and the no-break space U+00A0.  \<open>' '.join(xs)\<close>, and
  \<open>s.split()\<close>: the maximal runs of characters that are not white space
  (\<open>cur\<close> is the run being read, newest character first).
\<close>

definition is_space :: "char \<Rightarrow> bool" where
  "is_space c =
     (let n = (of_char c :: nat) in
      (9 \<le> n \<and> n \<le> 13) \<or> (28 \<le> n \<and> n \<le> 32) \<or> n = 133 \<or> n = 160)"

fun join_space :: "string list \<Rightarrow> string" where
  "join_space [] = []"
| "join_space [s] = s"
| "join_space (s # t # rest) = s @ CHR '' '' # join_space (t # rest)"

fun split_from :: "string \<Rightarrow> string \<Rightarrow> string list" where
  "split_from cur [] = (if cur = [] then [] else [rev cur])"
| "split_from cur (c # cs) =
     (if is_space c then (if cur = [] then split_from [] cs else rev cur # split_from [] cs)
      else split_from (c # cur) cs)"

definition py_split :: "string \<Rightarrow> string list" where
  "py_split s = split_from [] s"

text \<open>
  Lines 156 and 157: \<open>all_text\<close> joins the lowercased texts of the values that are not
  missing; \<open>common_words\<close> is \<open>value_counts().head(10)\<close> of its tokens.
\<close>

definition all_text :: "('v \<Rightarrow> string) \<Rightarrow> 'v column \<Rightarrow> string" where
  "all_text fmt col = join_space (map (\<lambda>x. str_lower (astype_str fmt x)) (dropna (cells col)))"

definition common_words :: "('v \<Rightarrow> string) \<Rightarrow> 'v column \<Rightarrow> (string \<times> nat) list" where
  "common_words fmt col = take 10 (value_counts (py_split (all_text fmt col)))"

text \<open>
  The loop of lines 163 to 165 writes one line per word longer than two characters;
  \<open>written\<close> collects the (word, count) pairs of the lines.  The chart of lines 169 to
  171 gets \<open>common_words.values[:5]\<close> and \<open>common_words.index[:5]\<close>.
\<close>

fun write_loop :: "(string \<times> nat) list \<Rightarrow> (string \<times> nat) list \<Rightarrow> (string \<times> nat) list" where
  "write_loop written [] = written"
| "write_loop written ((word, count) # rest) =
     write_loop (if length word > 2 then written @ [(word, count)] else written) rest"

definition words_written :: "(string \<times> nat) list \<Rightarrow> (string \<times> nat) list" where
  "words_written cw = write_loop [] cw"

definition top5_chart :: "(string \<times> nat) list \<Rightarrow> nat list \<times> string list" where
  "top5_chart cw = (map snd (take 5 cw), map fst (take 5 cw))"

text \<open>An address column with sixteen distinct tokens, six of them short.\<close>

definition avenidas :: "nat column" where
  "avenidas = \<lparr>cname = ''direccion'', ctype = Object,
     cells = [Str ''Av de la Paz 12'', Str ''AV de la Luz 3'', NA, Str ''Calle de la Rosa 7'',
              Str ''Calle del Sol 9'', Str ''Paseo de la Reina 1'']\<rparr>"

subsection \<open>Double precision\<close>

text \<open>
  numpy computes the percentages of the frequency table in IEEE 754 double precision.  A
  double is a rational number here, and \<open>fl\<close> rounds a rational number to the nearest
  double, a tie to the even significand: \<open>ilog2\<close> is the binary exponent of a positive
  number, the spacing of the doubles at exponent \<open>e\<close> is \<open>2 powi (e - 52)\<close>, and
  not below \<open>2 powi (- 1074)\<close> (the subnormal numbers).  Each arithmetic operation of
  the script on doubles is the exact operation followed by \<open>fl\<close>.  Overflow is not
  modelled: the theorems are about tables with fewer than \<open>2 ^ 53\<close> rows, whose
  numbers stay far below the largest double.  \<open>round_half_even\<close> is \<open>rint\<close>:
  the nearest integer, a tie to the even one.
\<close>

definition round_half_even :: "rat \<Rightarrow> int" where
  "round_half_even x =
     (let f = \<lfloor>x\<rfloor>; d = x - of_int f in
      if d < 1 / 2 then f else if 1 / 2 < d then f + 1 else if even f then f else f + 1)"

definition ilog2 :: "rat \<Rightarrow> int" where
  "ilog2 x =
     (let (a, b) = quotient_of x; e = bitlen a - bitlen b
      in if 2 powi e \<le> x then e else e - 1)"

definition fl :: "rat \<Rightarrow> rat" where
  "fl x =
     (if x = 0 then 0
      else
        (let e = ilog2 \<bar>x\<bar>; q = 2 powi (max (e - 52) (- 1074))
         in sgn x * (of_int (round_half_even (\<bar>x\<bar> / q)) * q)))"

subsection \<open>Charts tab: the frequency table (lines 241 to 268)\<close>

text \<open>
  \<open>ndarray.round(2)\<close> on doubles is \<open>rint(a * 100) / 100\<close>, each operation in
  double precision.  Line 267, \<open>(value_counts.values / len(df) * 100).round(2)\<close>: the
  count and the row count become doubles, the quotient and the product are taken in
  double precision, and the result is rounded by \<open>round(2)\<close>.
\<close>

definition np_round2 :: "rat \<Rightarrow> rat" where
  "np_round2 y = fl (of_int (round_half_even (fl (y * 100))) / 100)"

definition percent :: "nat \<Rightarrow> nat \<Rightarrow> rat" where
  "percent n len = np_round2 (fl (fl (fl (of_nat n) / fl (of_nat len)) * 100))"

text \<open>
  Line 243 and lines 264 to 268: the rows of \<open>freq_table\<close> are (value, Frecuencia,
  Porcentaje), from \<open>df[col].value_counts().head(20)\<close> (missing values are not
  counted) and the percentages of line 267.
\<close>

definition freq_table :: "'v table \<Rightarrow> 'v column \<Rightarrow> ('v cell \<times> nat \<times> rat) list" where
  "freq_table df col =
     (let counts = take 20 (value_counts (dropna (cells col)))
      in map (\<lambda>(v, n). (v, n, percent n (nrows df))) counts)"

text \<open>
  A table of six rows whose one column holds six different values, and a table of 160
  rows whose one column holds one value 137 times and another 23 times.
\<close>

definition six_rows :: "nat table" where
  "six_rows = \<lparr>nrows = 6, columns = [\<lparr>cname = ''ciudad'', ctype = Object,
      cells = [Str ''a'', Str ''b'', Str ''c'', Str ''d'', Str ''e'', Str ''f'']\<rparr>]\<rparr>"

definition rows_160 :: "nat table" where
  "rows_160 = \<lparr>nrows = 160, columns = [\<lparr>cname = ''ciudad'', ctype = Object,
      cells = replicate 137 (Str ''Madrid'') @ replicate 23 (Str ''Sevilla'')\<rparr>]\<rparr>"

subsection \<open>Data tab: column selection and search (lines 293 to 303)\<close>

text \<open>
  Line 296, \<open>display_df[columns_to_show]\<close>: the named columns in the order of
  \<open>columns_to_show\<close>; a name that is no column raises \<open>KeyError\<close> (the widget
  offers the frame's own names only).  Column names are taken to be distinct, as
  \<open>read_excel\<close> makes them.
\<close>

fun find_column :: "string \<Rightarrow> 'v column list \<Rightarrow> 'v column option" where
  "find_column name [] = None"
| "find_column name (c # cs) = (if cname c = name then Some c else find_column name cs)"

fun getitem_columns :: "'v column list \<Rightarrow> string list \<Rightarrow> error + 'v column list" where
  "getitem_columns cs [] = Inr []"
| "getitem_columns cs (name # names) =
     (case find_column name cs of
        None \<Rightarrow> Inl KeyError
      | Some c \<Rightarrow> (case getitem_columns cs names of Inl e \<Rightarrow> Inl e | Inr r \<Rightarrow> Inr (c # r)))"

text \<open>
  Line 302, \<open>str.contains(search_term, case=False, na=False)\<close>.  The call leaves
  \<open>regex\<close> at its default \<open>True\<close>: pandas compiles the term with
  \<open>re.compile(pat, flags=re.IGNORECASE)\<close> and tests each text with \<open>search\<close>.
  \<open>re_compile\<close> gives the matcher, or \<open>None\<close> where \<open>re.compile\<close> raises.
  The embedding decides two kinds of pattern itself:
  \<^item> a pattern with none of the special characters \<open>. ^ $ * + ? { } [ ] \ | ( )\<close>
    matches itself: the text matches when it contains the pattern, case ignored (on
    U+0000..U+00FF two characters are equal up to case exactly when their lowercase forms
    are equal);
  \<^item> a pattern with an opening parenthesis, and with no closing parenthesis, no bracket
    and no backslash, opens a group that is never closed: \<open>re.compile\<close> raises.
  Every other pattern is left to the parameter \<open>rx\<close>, which stands for the rest of
  the regular expression engine; the theorems hold for every \<open>rx\<close>.  The examples pass
  \<open>rx_unused\<close>; none of them reaches it.
\<close>

definition re_special :: "char \<Rightarrow> bool" where
  "re_special c =
     (c \<in> set [CHR ''.'', CHR ''^'', CHR ''$'', CHR ''*'', CHR ''+'', CHR ''?'', CHR ''{'', CHR ''}'',
               CHR ''['', CHR '']'', CHR 0x5C, CHR ''|'', CHR ''('', CHR '')''])"

definition re_compile :: "(string \<Rightarrow> (string \<Rightarrow> bool) option) \<Rightarrow> string \<Rightarrow> (string \<Rightarrow> bool) option" where
  "re_compile rx pat =
     (if \<not> list_ex re_special pat then Some (\<lambda>s. str_in (str_lower pat) (str_lower s))
      else if CHR ''('' \<in> set pat \<and> CHR '')'' \<notin> set pat \<and> CHR ''['' \<notin> set pat \<and> CHR 0x5C \<notin> set pat
      then None
      else rx pat)"

definition rx_unused :: "string \<Rightarrow> (string \<Rightarrow> bool) option" where
  "rx_unused pat = None"

text \<open>
  \<open>display_df[col].astype(str).str.contains(...)\<close>: the column is turned into texts
  first, so no value is missing when \<open>contains\<close> runs and \<open>na=False\<close> has nothing
  to act on; a missing cell is tested as the text \<open>nan\<close>.
\<close>

definition str_contains ::
  "(string \<Rightarrow> (string \<Rightarrow> bool) option) \<Rightarrow> ('v \<Rightarrow> string) \<Rightarrow> string \<Rightarrow> 'v column \<Rightarrow> error + bool list" where
  "str_contains rx fmt pat col =
     (case re_compile rx pat of
        None \<Rightarrow> Inl ReError
      | Some m \<Rightarrow> Inr (map (\<lambda>x. m (astype_str fmt x)) (cells col)))"

text \<open>
  The loop of lines 300 to 302.  The variable starts as the Python value \<open>False\<close>
  (\<open>None\<close> here) and becomes a boolean Series at the first column
  (\<open>False | series\<close> is the series); later columns are or-ed in row by row.
\<close>

fun mask_loop ::
  "(string \<Rightarrow> (string \<Rightarrow> bool) option) \<Rightarrow> ('v \<Rightarrow> string) \<Rightarrow> string \<Rightarrow> bool list option \<Rightarrow>
     'v column list \<Rightarrow> error + bool list option" where
  "mask_loop rx fmt search_term msk [] = Inr msk"
| "mask_loop rx fmt search_term msk (col # cols) =
     (case str_contains rx fmt search_term col of
        Inl e \<Rightarrow> Inl e
      | Inr hits \<Rightarrow>
          mask_loop rx fmt search_term
            (Some (case msk of None \<Rightarrow> hits | Some m \<Rightarrow> map2 (\<or>) m hits)) cols)"

text \<open>
  Line 303, \<open>display_df[mask]\<close>: with a boolean Series, the rows where it is true;
  with the Python value \<open>False\<close> (no text column was met) the frame looks for a column
  named \<open>False\<close> and raises \<open>KeyError\<close>.
\<close>

definition select_rows :: "bool list \<Rightarrow> 'a list \<Rightarrow> 'a list" where
  "select_rows msk xs = map snd (filter fst (zip msk xs))"

definition getitem_mask :: "bool list \<Rightarrow> 'v table \<Rightarrow> 'v table" where
  "getitem_mask msk df =
     \<lparr>nrows = length (filter id msk),
      columns = map (\<lambda>c. c\<lparr>cells := select_rows msk (cells c)\<rparr>) (columns df)\<rparr>"

definition search_filter ::
  "(string \<Rightarrow> (string \<Rightarrow> bool) option) \<Rightarrow> ('v \<Rightarrow> string) \<Rightarrow> string \<Rightarrow> 'v table \<Rightarrow> error + 'v table" where
  "search_filter rx fmt search_term frame =
     (if search_term = [] then Inr frame
      else
        (case mask_loop rx fmt search_term None
                (filter (\<lambda>c. ctype c = Object) (columns frame)) of
           Inl e \<Rightarrow> Inl e
         | Inr None \<Rightarrow> Inl KeyError
         | Inr (Some msk) \<Rightarrow> Inr (getitem_mask msk frame)))"

text \<open>
  Lines 293 to 303 together: \<open>display_df\<close> after both filters; \<open>frame\<close> is
  the variable between them.
\<close>

definition display_df ::
  "(string \<Rightarrow> (string \<Rightarrow> bool) option) \<Rightarrow> ('v \<Rightarrow> string) \<Rightarrow> 'v table \<Rightarrow> string list \<Rightarrow> string \<Rightarrow>
     error + 'v table" where
  "display_df rx fmt df columns_to_show search_term =
     (case (if columns_to_show \<noteq> [] then
              (case getitem_columns (columns df) columns_to_show of
                 Inl e \<Rightarrow> Inl e
               | Inr cs \<Rightarrow> Inr (df\<lparr>columns := cs\<rparr>))
            else Inr df) of
        Inl e \<Rightarrow> Inl e
      | Inr frame \<Rightarrow> search_filter rx fmt search_term frame)"

subsection \<open>Data tab: display and CSV export (lines 306 to 317)\<close>

text \<open>\<open>display_df.head(show_rows)\<close>, and the rows of a frame, by position.\<close>

definition head :: "nat \<Rightarrow> 'v table \<Rightarrow> 'v table" where
  "head n df =
     \<lparr>nrows = min n (nrows df), columns = map (\<lambda>c. c\<lparr>cells := take n (cells c)\<rparr>) (columns df)\<rparr>"

definition row_at :: "'v table \<Rightarrow> nat \<Rightarrow> 'v cell list" where
  "row_at df i = map (\<lambda>c. cells c ! i) (columns df)"

definition table_rows :: "'v table \<Rightarrow> 'v cell list list" where
  "table_rows df = map (row_at df) [0..<nrows df]"

text \<open>
  \<open>display_df.to_csv(index=False)\<close>.  pandas writes the column names and then each row
  through Python's \<open>csv.writer\<close> with comma, double quote, minimal quoting and the
  line terminator \<open>os.linesep\<close>, here the line feed of POSIX.  A missing cell is
  written as the empty text (\<open>na_rep\<close>), a text as it is, another scalar as its
  \<open>str()\<close>.  A field is quoted when it holds a comma, a double quote or a line feed,
  and a double quote inside is doubled; interpreters differ on whether a carriage return
  also forces the quotes, which is the parameter \<open>quote_cr\<close>.  A record whose only
  field is empty is written as two double quotes; a record with no field is an empty line.
\<close>

definition to_csv_cell :: "('v \<Rightarrow> string) \<Rightarrow> 'v cell \<Rightarrow> string" where
  "to_csv_cell fmt x = (case x of NA \<Rightarrow> [] | Str s \<Rightarrow> s | Val v \<Rightarrow> fmt v)"

definition needs_quote :: "bool \<Rightarrow> char \<Rightarrow> bool" where
  "needs_quote quote_cr c =
     (c = CHR '','' \<or> c = CHR 0x22 \<or> c = CHR 0x0A \<or> (quote_cr \<and> c = CHR 0x0D))"

definition csv_field :: "bool \<Rightarrow> string \<Rightarrow> string" where
  "csv_field quote_cr s =
     (if list_ex (needs_quote quote_cr) s
      then CHR 0x22 # concat (map (\<lambda>c. if c = CHR 0x22 then [c, c] else [c]) s) @ [CHR 0x22]
      else s)"

fun csv_join :: "string list \<Rightarrow> string" where
  "csv_join [] = []"
| "csv_join [s] = s"
| "csv_join (s # t # rest) = s @ CHR '','' # csv_join (t # rest)"

definition csv_record :: "bool \<Rightarrow> string list \<Rightarrow> string" where
  "csv_record quote_cr flds =
     (if flds = [[]] then [CHR 0x22, CHR 0x22] else csv_join (map (csv_field quote_cr) flds))
     @ [CHR 0x0A]"

definition to_csv :: "bool \<Rightarrow> ('v \<Rightarrow> string) \<Rightarrow> 'v table \<Rightarrow> string" where
  "to_csv quote_cr fmt df =
     csv_record quote_cr (map cname (columns df))
     @ concat (map (\<lambda>r. csv_record quote_cr (map (to_csv_cell fmt) r)) (table_rows df))"

text \<open>
  What the data tab shows and what its download holds, for a row cap \<open>show_rows\<close>
  (line 306 and lines 309 to 311).
\<close>

definition tab4 ::
  "(string \<Rightarrow> (string \<Rightarrow> bool) option) \<Rightarrow> bool \<Rightarrow> ('v \<Rightarrow> string) \<Rightarrow> 'v table \<Rightarrow> nat \<Rightarrow> string list \<Rightarrow>
     string \<Rightarrow> error + 'v table \<times> string" where
  "tab4 rx quote_cr fmt df show_rows columns_to_show search_term =
     (case display_df rx fmt df columns_to_show search_term of
        Inl e \<Rightarrow> Inl e
      | Inr frame \<Rightarrow> Inr (head show_rows frame, to_csv quote_cr fmt frame))"

text \<open>A table with missing cells, a number column, and texts that need quoting.\<close>

definition envios :: "nat table" where
  "envios = \<lparr>nrows = 3, columns =
     [\<lparr>cname = ''direccion'', ctype = Object,
       cells = [Str ''Calle Mayor 5'', NA, Str ''Av. Libertad, 3'']\<rparr>,
      \<lparr>cname = ''piso'', ctype = Number, cells = [Val 2, Val 11, NA]\<rparr>,
      \<lparr>cname = ''nota'', ctype = Object,
       cells = [NA, Str (''dice '' @ [CHR 0x22] @ ''hola'' @ [CHR 0x22]), Str ''mayorista'']\<rparr>]\<rparr>"

subsection \<open>Reading a CSV text back\<close>

text \<open>
  Modelled from the spec: the re-parsing of the exported CSV (section 8, CSV round-trip).
  The program holds no reader, so the round trip is stated against this one: the reader
  of the format that \<open>csv.writer\<close> produces, with the line feed as the end of a
  record, which gives every field back as text and infers no type.  \<open>fld\<close> is the
  field being read (newest character first) and \<open>rcd\<close> the fields of the record read
  so far (newest first).  An empty line is a record with no field; a text that does not
  end at the end of a record, or has a stray double quote, is not read (\<open>None\<close>).
\<close>

datatype pstate = RecordStart | FieldStart | InField | InQuoted | AfterQuote

fun csv_parse :: "pstate \<Rightarrow> string \<Rightarrow> string list \<Rightarrow> string \<Rightarrow> string list list option" where
  "csv_parse RecordStart fld rcd [] = Some []"
| "csv_parse FieldStart fld rcd [] = None"
| "csv_parse InField fld rcd [] = None"
| "csv_parse InQuoted fld rcd [] = None"
| "csv_parse AfterQuote fld rcd [] = None"
| "csv_parse RecordStart fld rcd (c # cs) =
     (if c = CHR 0x0A then map_option ((#) []) (csv_parse RecordStart [] [] cs)
      else if c = CHR 0x22 then csv_parse InQuoted [] [] cs
      else if c = CHR '','' then csv_parse FieldStart [] [[]] cs
      else csv_parse InField [c] [] cs)"
| "csv_parse FieldStart fld rcd (c # cs) =
     (if c = CHR 0x0A then map_option ((#) (rev ([] # rcd))) (csv_parse RecordStart [] [] cs)
      else if c = CHR 0x22 then csv_parse InQuoted [] rcd cs
      else if c = CHR '','' then csv_parse FieldStart [] ([] # rcd) cs
      else csv_parse InField [c] rcd cs)"
| "csv_parse InField fld rcd (c # cs) =
     (if c = CHR 0x0A then map_option ((#) (rev (rev fld # rcd))) (csv_parse RecordStart [] [] cs)
      else if c = CHR '','' then csv_parse FieldStart [] (rev fld # rcd) cs
      else if c = CHR 0x22 then None
      else csv_parse InField (c # fld) rcd cs)"
| "csv_parse InQuoted fld rcd (c # cs) =
     (if c = CHR 0x22 then csv_parse AfterQuote fld rcd cs
      else csv_parse InQuoted (c # fld) rcd cs)"
| "csv_parse AfterQuote fld rcd (c # cs) =
     (if c = CHR 0x22 then csv_parse InQuoted (c # fld) rcd cs
      else if c = CHR '','' then csv_parse FieldStart [] (rev fld # rcd) cs
      else if c = CHR 0x0A then map_option ((#) (rev (rev fld # rcd))) (csv_parse RecordStart [] [] cs)
      else None)"

definition read_csv :: "string \<Rightarrow> string list list option" where
  "read_csv s = csv_parse RecordStart [] [] s"

text \<open>What the reader does after a field, at a comma or at the line feed (used in the proofs only).\<close>

definition finish :: "char \<Rightarrow> string \<Rightarrow> string list \<Rightarrow> string \<Rightarrow> string list list option" where
  "finish t f rcd rest =
     (if t = CHR '','' then csv_parse FieldStart [] (f # rcd) rest
      else map_option ((#) (rev (f # rcd))) (csv_parse RecordStart [] [] rest))"

section \<open>Properties\<close>

subsection \<open>Strings\<close>

lemma lower_char_idem: "lower_char (lower_char c) = lower_char c"
proof -
  have "of_char c < (256::nat)" by simp
  then show ?thesis
    by (auto simp add: lower_char_def Let_def)
qed

lemma str_lower_idem: "str_lower (str_lower s) = str_lower s"
  by (simp add: str_lower_def lower_char_idem)

lemma startswith_iff: "startswith s w \<longleftrightarrow> (\<exists>suf. s = w @ suf)"
  by (induction s w rule: startswith.induct) auto

lemma str_in_iff: "str_in w s \<longleftrightarrow> (\<exists>pre suf. s = pre @ w @ suf)"
proof (induction s)
  case Nil
  then show ?case by auto
next
  case (Cons c cs)
  show ?case
  proof
    assume "str_in w (c # cs)"
    then consider "startswith (c # cs) w" | "str_in w cs" by auto
    then show "\<exists>pre suf. c # cs = pre @ w @ suf"
    proof cases
      case 1
      then obtain suf where "c # cs = w @ suf" by (auto simp: startswith_iff)
      then have "c # cs = [] @ w @ suf" by simp
      then show ?thesis by blast
    next
      case 2
      with Cons obtain pre suf where "cs = pre @ w @ suf" by auto
      then have "c # cs = (c # pre) @ w @ suf" by simp
      then show ?thesis by blast
    qed
  next
    assume "\<exists>pre suf. c # cs = pre @ w @ suf"
    then obtain pre suf where e: "c # cs = pre @ w @ suf" by blast
    show "str_in w (c # cs)"
    proof (cases pre)
      case Nil
      with e have "startswith (c # cs) w" by (auto simp: startswith_iff)
      then show ?thesis by simp
    next
      case (Cons p ps)
      with e have "cs = ps @ w @ suf" by simp
      with Cons.IH have "str_in w cs" by blast
      then show ?thesis by simp
    qed
  qed
qed

subsection \<open>The address column detector\<close>

lemma address_loop_text:
  "address_loop acc (map Text names) = Inr (acc @ map Text (filter any_word names))"
  by (induction names arbitrary: acc) auto

lemma address_loop_nontext:
  "NonText k \<in> set cols \<Longrightarrow> address_loop acc cols = Inl AttributeError"
  by (induction acc cols rule: address_loop.induct) auto

lemma any_word_iff:
  "any_word col \<longleftrightarrow>
     (\<exists>word \<in> {''direccion'', ''address'', ''ubicacion'', ''domicilio'', ''calle''}.
        \<exists>pre suf. str_lower col = pre @ word @ suf)"
  by (simp add: any_word_def address_words_def list_ex_iff str_in_iff)

lemma process_addresses_text:
  "process_addresses (Some (map Text names)) = Inr (Some (map Text (filter any_word names)))"
  by (simp add: process_addresses_def address_loop_text)

text \<open>
  Claim C7, as amended.  For every sequence of column names that are texts, the detector
  returns exactly the names, in their order, whose lowercased form has one of the five
  words direccion, address, ubicacion, domicilio, calle as a contiguous substring; nothing
  else is matched (no fuzzy matching), and the answer does not depend on the case of the
  name: a name and its lowercased form get the same answer.  When a column label is not a
  text (the number or date of a numeric or date header cell), the detector raises
  \<open>AttributeError\<close>.
\<close>

theorem process_addresses_exact:
  "process_addresses (Some (map Text names)) =
     Inr (Some (map Text
       (filter (\<lambda>col. \<exists>word \<in> {''direccion'', ''address'', ''ubicacion'', ''domicilio'', ''calle''}.
                     \<exists>pre suf. str_lower col = pre @ word @ suf) names)))
   \<and> process_addresses (Some (map Text (map str_lower names))) =
       Inr (Some (map Text (map str_lower
         (filter (\<lambda>col. \<exists>word \<in> {''direccion'', ''address'', ''ubicacion'', ''domicilio'', ''calle''}.
                     \<exists>pre suf. str_lower col = pre @ word @ suf) names))))
   \<and> (NonText k \<in> set cols \<longrightarrow> process_addresses (Some cols) = Inl AttributeError)
   \<and> process_addresses None = Inr None"
proof (intro conjI impI)
  have f: "filter any_word names =
        filter (\<lambda>col. \<exists>word \<in> {''direccion'', ''address'', ''ubicacion'', ''domicilio'', ''calle''}.
                     \<exists>pre suf. str_lower col = pre @ word @ suf) names"
    by (rule filter_cong) (simp_all only: any_word_iff)
  show "process_addresses (Some (map Text names)) =
     Inr (Some (map Text
       (filter (\<lambda>col. \<exists>word \<in> {''direccion'', ''address'', ''ubicacion'', ''domicilio'', ''calle''}.
                     \<exists>pre suf. str_lower col = pre @ word @ suf) names)))"
    by (simp only: process_addresses_text f)
  have "any_word (str_lower c) = any_word c" for c
    by (simp add: any_word_def str_lower_idem)
  then have "filter any_word (map str_lower names) = map str_lower (filter any_word names)"
    by (simp add: filter_map comp_def)
  then show "process_addresses (Some (map Text (map str_lower names))) =
       Inr (Some (map Text (map str_lower
         (filter (\<lambda>col. \<exists>word \<in> {''direccion'', ''address'', ''ubicacion'', ''domicilio'', ''calle''}.
                     \<exists>pre suf. str_lower col = pre @ word @ suf) names))))"
    by (simp only: process_addresses_text f)
  show "process_addresses (Some cols) = Inl AttributeError" if "NonText k \<in> set cols"
    using that by (simp add: process_addresses_def address_loop_nontext)
  show "process_addresses None = Inr None"
    by (simp add: process_addresses_def)
qed

theorem process_addresses_exact_witness:
  "process_addresses (Some (map Text [''Calle Mayor'', ''street'', ''ADDRESS_2'', ''Ciudad'']))
     = Inr (Some (map Text [''Calle Mayor'', ''ADDRESS_2'']) :: int label list option)
   \<and> NonText 2023 \<in> set [Text ''Calle Mayor'', NonText (2023 :: int)]
   \<and> process_addresses (Some [Text ''Calle Mayor'', NonText (2023 :: int)]) = Inl AttributeError"
proof -
  have a: "filter any_word [''Calle Mayor'', ''street'', ''ADDRESS_2'', ''Ciudad'']
             = [''Calle Mayor'', ''ADDRESS_2'']"
    by code_simp
  have b: "filter (\<lambda>col. \<exists>word \<in> {''direccion'', ''address'', ''ubicacion'', ''domicilio'', ''calle''}.
                     \<exists>pre suf. str_lower col = pre @ word @ suf)
             [''Calle Mayor'', ''street'', ''ADDRESS_2'', ''Ciudad'']
           = filter any_word [''Calle Mayor'', ''street'', ''ADDRESS_2'', ''Ciudad'']"
    by (rule filter_cong) (simp_all only: any_word_iff)
  have m: "NonText 2023 \<in> set [Text ''Calle Mayor'', NonText (2023 :: int)]" by simp
  note t = process_addresses_exact [of "[''Calle Mayor'', ''street'', ''ADDRESS_2'', ''Ciudad'']"
      "2023 :: int" "[Text ''Calle Mayor'', NonText 2023]"]
  from t have "process_addresses (Some (map Text [''Calle Mayor'', ''street'', ''ADDRESS_2'', ''Ciudad'']))
     = Inr (Some (map Text [''Calle Mayor'', ''ADDRESS_2'']) :: int label list option)"
    by (simp only: b a) (erule conjunct1)
  moreover from t m
  have "process_addresses (Some [Text ''Calle Mayor'', NonText (2023 :: int)]) = Inl AttributeError"
    by blast
  ultimately show ?thesis using m by (intro conjI)
qed

text \<open>
  Claim C7, as stated, fails on a frame with a numeric header cell: the label 2023 is a
  number, \<open>col.lower()\<close> raises, and the detector returns nothing.
\<close>

theorem process_addresses_raises:
  "process_addresses (Some [Text ''calle'', NonText (2023 :: int)]) = Inl AttributeError"
  by (simp add: process_addresses_def)

text \<open>
  Claim C2.  The claim expects the column DIRECCI\<open>U+00D3\<close>N_ENV\<open>U+00CD\<close>O to be
  flagged.  The detector lowercases the name and removes no accent: the lowercased name
  keeps the letter o with acute accent (U+00F3), so the word direccion is not a substring
  of it, and no other word of the list is.  The column is not flagged.  The name street
  is not flagged either, as the claim says.  The page's own instructions (line 336)
  name the accented headers as address columns.
\<close>

theorem process_addresses_accented:
  "process_addresses (Some [Text (''DIRECCI'' @ [CHR 0xD3] @ ''N_ENV'' @ [CHR 0xCD] @ ''O'')])
     = Inr (Some [])
   \<and> str_lower (''DIRECCI'' @ [CHR 0xD3] @ ''N_ENV'' @ [CHR 0xCD] @ ''O'')
       = ''direcci'' @ [CHR 0xF3] @ ''n_env'' @ [CHR 0xED] @ ''o''
   \<and> process_addresses (Some [Text ''street'']) = Inr (Some [])
   \<and> process_addresses (Some [Text ''DIRECCION_ENVIO'']) = Inr (Some [Text ''DIRECCION_ENVIO''])"
proof -
  have a: "any_word (''DIRECCI'' @ [CHR 0xD3] @ ''N_ENV'' @ [CHR 0xCD] @ ''O'') = False"
    by code_simp
  have b: "str_lower (''DIRECCI'' @ [CHR 0xD3] @ ''N_ENV'' @ [CHR 0xCD] @ ''O'')
       = ''direcci'' @ [CHR 0xF3] @ ''n_env'' @ [CHR 0xED] @ ''o''"
    by code_simp
  have c: "any_word ''street'' = False" by code_simp
  have d: "any_word ''DIRECCION_ENVIO'' = True" by code_simp
  show ?thesis
    unfolding process_addresses_def
    by (simp add: a b c d del: append.simps)
qed

subsection \<open>Completeness\<close>



lemma completeness_divides_by_zero:
  "completeness df = DivisionByZero \<longleftrightarrow> 0 < nrows df \<and> columns df = []"
  by (simp add: completeness_def)



subsection \<open>Valid, unique and duplicate counts\<close>

text \<open>
  Claim C6.  For every analysed column the unique count plus the duplicate count is the
  valid count, the duplicate count being valid - unique; it is never negative.  The valid
  count is the number of cells that are not missing, the unique count the number of
  distinct values among them.
\<close>

theorem unique_plus_duplicates:
  assumes "address_metrics col = (valid, uniq, dups)"
  shows "uniq + dups = valid
     \<and> dups = valid - uniq
     \<and> 0 \<le> dups
     \<and> valid = int (length (filter (\<lambda>x. x \<noteq> NA) (cells col)))
     \<and> uniq = int (card (set (cells col) - {NA}))"
proof -
  have s: "set (dropna (cells col)) = set (cells col) - {NA}"
    by (auto simp add: dropna_def isnull_def)
  have "nunique (cells col) = card (set (cells col) - {NA})"
    by (simp add: nunique_def length_remdups_card_conv s)
  moreover have "nunique (cells col) \<le> length (dropna (cells col))"
    by (simp add: nunique_def)
  moreover have "dropna (cells col) = filter (\<lambda>x. x \<noteq> NA) (cells col)"
    by (simp add: dropna_def isnull_def)
  ultimately show ?thesis
    using assms by (auto simp add: address_metrics_def Let_def)
qed

theorem unique_plus_duplicates_witness:
  "address_metrics \<lparr>cname = ''direccion'', ctype = Object,
       cells = [Str ''Calle Mayor 5'', NA, Str ''Av. Libertad'', Str ''Calle Mayor 5'', NA :: nat cell]\<rparr>
     = (3, 2, 1) \<and> (2::int) + 1 = 3"
proof -
  have a: "address_metrics \<lparr>cname = ''direccion'', ctype = Object,
       cells = [Str ''Calle Mayor 5'', NA, Str ''Av. Libertad'', Str ''Calle Mayor 5'', NA :: nat cell]\<rparr>
     = (3, 2, 1)"
    by (simp add: address_metrics_def nunique_def dropna_def isnull_def)
  from unique_plus_duplicates [OF a] a show ?thesis by simp
qed

subsection \<open>Count tables\<close>

lemma cnt_bump: "cnt (bump x t) v = cnt t v + (if v = x then 1 else 0)"
  by (induction t) auto

lemma map_fst_bump:
  "map fst (bump x t) = (if x \<in> set (map fst t) then map fst t else map fst t @ [x])"
  by (induction t) (force+)

lemma keys_bump: "set (map fst (bump x t)) = insert x (set (map fst t))"
  by (simp only: map_fst_bump) auto

lemma distinct_bump: "distinct (map fst t) \<Longrightarrow> distinct (map fst (bump x t))"
proof (induction t)
  case Nil
  then show ?case by simp
next
  case (Cons p t)
  show ?case
    using Cons.prems by (simp only: map_fst_bump) auto
qed

lemma sum_bump: "sum_list (map snd (bump x t)) = Suc (sum_list (map snd t))"
  by (induction t) auto

lemma cnt_member: "distinct (map fst t) \<Longrightarrow> (v, n) \<in> set t \<Longrightarrow> cnt t v = n"
  by (induction t) (auto simp: rev_image_eqI)

lemma foldl_bump:
  "cnt (foldl (\<lambda>counts x. bump x counts) t xs) v = cnt t v + count_list xs v"
  by (induction xs arbitrary: t) (auto simp: cnt_bump)

lemma foldl_bump_keys:
  "set (map fst (foldl (\<lambda>counts x. bump x counts) t xs)) = set (map fst t) \<union> set xs"
  by (induction xs arbitrary: t) (auto simp: keys_bump simp del: set_map)

lemma foldl_bump_distinct:
  "distinct (map fst t) \<Longrightarrow> distinct (map fst (foldl (\<lambda>counts x. bump x counts) t xs))"
  by (induction xs arbitrary: t) (auto simp: distinct_bump)

lemma foldl_bump_sum:
  "sum_list (map snd (foldl (\<lambda>counts x. bump x counts) t xs)) = sum_list (map snd t) + length xs"
  by (induction xs arbitrary: t) (auto simp: sum_bump)

lemma tally_keys: "set (map fst (tally xs)) = set xs"
  using foldl_bump_keys [of "[]" xs] by (simp add: tally_def)

lemma tally_distinct: "distinct (map fst (tally xs))"
  using foldl_bump_distinct [of "[]" xs] by (simp add: tally_def)

lemma tally_count: "(v, n) \<in> set (tally xs) \<Longrightarrow> n = count_list xs v"
  using cnt_member [OF tally_distinct, of v n xs] foldl_bump [of "[]" xs v]
  by (simp add: tally_def)

lemma tally_sum: "sum_list (map snd (tally xs)) = length xs"
  using foldl_bump_sum [of "[]" xs] by (simp add: tally_def)

lemma insort_key_fst:
  "set (map fst (insort_key f p ps)) = insert (fst p) (set (map fst ps))"
  by (induction ps) auto

lemma insort_key_distinct_fst:
  "distinct (map fst (insort_key f p ps)) \<longleftrightarrow> fst p \<notin> set (map fst ps) \<and> distinct (map fst ps)"
  by (induction ps) (auto simp: insort_key_fst simp del: set_map)

lemma sort_key_fst: "set (map fst (sort_key f ps)) = set (map fst ps)"
  by (induction ps) (auto simp: insort_key_fst simp del: set_map)

lemma sort_key_distinct_fst: "distinct (map fst (sort_key f ps)) \<longleftrightarrow> distinct (map fst ps)"
  by (induction ps) (auto simp: insort_key_distinct_fst sort_key_fst simp del: set_map)

lemma insort_key_sum:
  "sum_list (map snd (insort_key f p ps)) = snd p + sum_list (map snd (ps :: ('a \<times> nat) list))"
  by (induction ps) auto

lemma sort_key_sum:
  "sum_list (map snd (sort_key f ps)) = sum_list (map snd (ps :: ('a \<times> nat) list))"
  by (induction ps) (auto simp: insort_key_sum)

lemma value_counts_set: "set (value_counts xs) = set (tally xs)"
  by (simp add: value_counts_def)

lemma value_counts_keys: "set (map fst (value_counts xs)) = set xs"
  by (simp add: value_counts_def sort_key_fst tally_keys del: set_map)

lemma value_counts_distinct: "distinct (map fst (value_counts xs))"
  by (simp add: value_counts_def sort_key_distinct_fst tally_distinct)

lemma value_counts_count: "(v, n) \<in> set (value_counts xs) \<Longrightarrow> n = count_list xs v"
  by (simp add: value_counts_set tally_count)

lemma value_counts_member: "(v, n) \<in> set (value_counts xs) \<Longrightarrow> v \<in> set xs \<and> 0 < n"
proof -
  assume a: "(v, n) \<in> set (value_counts xs)"
  then have "v \<in> set (map fst (value_counts xs))" by force
  then have v: "v \<in> set xs" by (simp only: value_counts_keys)
  moreover from a have "n = count_list xs v" by (rule value_counts_count)
  ultimately show ?thesis
    using count_list_0_iff [of xs v] by auto
qed

lemma value_counts_sum: "sum_list (map snd (value_counts xs)) = length xs"
  by (simp add: value_counts_def sort_key_sum tally_sum)

lemma value_counts_sorted: "sorted_wrt (\<lambda>a b. snd b \<le> snd a) (value_counts xs)"
proof -
  have "sorted (map (\<lambda>(v, n). - int n) (value_counts xs))"
    unfolding value_counts_def by (rule sorted_sort_key)
  then have "sorted_wrt (\<lambda>a b. (case a of (v, n) \<Rightarrow> - int n) \<le> (case b of (v, n) \<Rightarrow> - int n))
               (value_counts xs)"
    by (simp add: sorted_map)
  then show ?thesis
    by (rule sorted_wrt_mono_rel [rotated]) (auto split: prod.splits)
qed

lemma head_sum: "sum_list (map snd (take k ps)) \<le> sum_list (map snd (ps :: ('a \<times> nat) list))"
proof -
  have "sum_list (map snd ps) = sum_list (map snd (take k ps)) + sum_list (map snd (drop k ps))"
    by (metis append_take_drop_id map_append sum_list.append)
  then show ?thesis by simp
qed

lemma head_top:
  assumes s: "sorted_wrt (\<lambda>a b. snd b \<le> snd a) ps"
    and a: "a \<in> set (take k ps)" and b: "b \<in> set ps" and nb: "b \<notin> set (take k ps)"
  shows "snd b \<le> snd a \<and> length (take k ps) = k"
proof -
  have ps: "ps = take k ps @ drop k ps" by simp
  with b nb have bd: "b \<in> set (drop k ps)"
    by (metis Un_iff set_append)
  from s have "sorted_wrt (\<lambda>a b. snd b \<le> snd a) (take k ps @ drop k ps)" by simp
  then have "\<forall>x\<in>set (take k ps). \<forall>y\<in>set (drop k ps). snd y \<le> snd x"
    by (simp only: sorted_wrt_append) blast
  with a bd have "snd b \<le> snd a" by blast
  moreover from bd have "k < length ps"
    by (cases "k < length ps") auto
  ultimately show ?thesis by simp
qed

subsection \<open>Words\<close>

lemma split_from_space:
  "is_space sp \<Longrightarrow> split_from cur (a @ sp # b) = split_from cur a @ split_from [] b"
  by (induction a arbitrary: cur) auto

lemma py_split_append_space: "py_split (a @ CHR '' '' # b) = py_split a @ py_split b"
proof -
  have "is_space (CHR '' '')" by (simp add: is_space_def)
  then show ?thesis by (simp add: py_split_def split_from_space)
qed

lemma py_split_join: "py_split (join_space xs) = concat (map py_split xs)"
proof (induction xs rule: join_space.induct)
  case 1
  then show ?case by (simp add: py_split_def)
next
  case (2 s)
  then show ?case by simp
next
  case (3 s t rest)
  then show ?case by (simp add: py_split_append_space)
qed

lemma split_from_tokens:
  "list_all (\<lambda>c. \<not> is_space c) cur \<Longrightarrow> w \<in> set (split_from cur s) \<Longrightarrow>
     w \<noteq> [] \<and> list_all (\<lambda>c. \<not> is_space c) w \<and> set w \<subseteq> set cur \<union> set s"
proof (induction cur s rule: split_from.induct)
  case (1 cur)
  then show ?case by (auto split: if_splits simp: list_all_iff)
next
  case (2 cur c cs)
  show ?case
  proof (cases "is_space c")
    case True
    show ?thesis
    proof (cases "cur = []")
      case e: True
      with True 2 show ?thesis by auto
    next
      case ne: False
      with True 2 show ?thesis by (auto simp: list_all_iff)
    qed
  next
    case False
    with 2 show ?thesis by auto
  qed
qed

lemma py_split_tokens:
  "w \<in> set (py_split s) \<Longrightarrow> w \<noteq> [] \<and> list_all (\<lambda>c. \<not> is_space c) w \<and> set w \<subseteq> set s"
  using split_from_tokens [of "[]" w s] by (simp add: py_split_def)

lemma str_lower_join: "str_lower (join_space xs) = join_space (map str_lower xs)"
  by (induction xs rule: join_space.induct) (simp_all add: str_lower_def lower_char_def)

lemma lower_fixed: "set w \<subseteq> set (str_lower s) \<Longrightarrow> str_lower w = w"
proof -
  assume a: "set w \<subseteq> set (str_lower s)"
  have "lower_char c = c" if "c \<in> set w" for c
  proof -
    from that a obtain d where "c = lower_char d" by (auto simp: str_lower_def)
    then show ?thesis by (simp add: lower_char_idem)
  qed
  then show ?thesis by (simp add: str_lower_def map_idI)
qed

lemma write_loop_filter:
  "write_loop written cw = written @ filter (\<lambda>(word, count). 2 < length word) cw"
  by (induction written cw rule: write_loop.induct) auto

lemma head_facts:
  assumes "cw = take k (value_counts toks)"
  shows "length cw \<le> k"
    and "distinct (map fst cw)"
    and "\<And>w n. (w, n) \<in> set cw \<Longrightarrow> w \<in> set toks \<and> n = count_list toks w \<and> 0 < n"
    and "sorted_wrt (\<lambda>a b. snd b \<le> snd a) cw"
    and "\<And>w v n. w \<in> set toks \<Longrightarrow> w \<notin> set (map fst cw) \<Longrightarrow> (v, n) \<in> set cw \<Longrightarrow>
           length cw = k \<and> count_list toks w \<le> n"
proof -
  show "length cw \<le> k" by (simp add: assms)
  show "distinct (map fst cw)"
    using value_counts_distinct [of toks] by (simp add: assms take_map [symmetric] distinct_take)
  show m: "w \<in> set toks \<and> n = count_list toks w \<and> 0 < n" if "(w, n) \<in> set cw" for w n
  proof -
    from that have "(w, n) \<in> set (value_counts toks)"
      unfolding assms by (rule in_set_takeD)
    then show ?thesis
      using value_counts_member value_counts_count by fastforce
  qed
  show "sorted_wrt (\<lambda>a b. snd b \<le> snd a) cw"
    unfolding assms by (rule sorted_wrt_take) (rule value_counts_sorted)
  show "length cw = k \<and> count_list toks w \<le> n"
    if w: "w \<in> set toks" and nw: "w \<notin> set (map fst cw)" and vn: "(v, n) \<in> set cw" for w v n
  proof -
    from w have "w \<in> set (map fst (value_counts toks))"
      by (simp only: value_counts_keys)
    then obtain c where c: "(w, c) \<in> set (value_counts toks)" by auto
    then have cc: "c = count_list toks w" by (rule value_counts_count)
    from nw have "(w, c) \<notin> set (take k (value_counts toks))"
      unfolding assms by force
    with head_top [OF value_counts_sorted, of "(v, n)" k toks "(w, c)"] vn c
    show ?thesis by (simp add: assms cc)
  qed
qed

text \<open>
  Claim C5.  For every analysed column, the tokens are the lowercased, white-space
  delimited words of all values that are not missing; the common words are the first ten
  of their count table: distinct tokens with their numbers of occurrences, in descending
  order of count, and a token left out occurs no more often than any listed one (and is
  left out only when all ten places are taken).  The written list is the common words
  longer than two characters, so a shorter token is counted and keeps its place among the
  ten but is not written; the chart takes the first five of the ten, short ones included.
\<close>

theorem common_words_top10:
  assumes "toks = py_split (all_text fmt col)" and "cw = common_words fmt col"
  shows "toks = concat (map (\<lambda>x. py_split (str_lower (astype_str fmt x)))
                         (filter (\<lambda>x. x \<noteq> NA) (cells col)))
    \<and> (\<forall>w \<in> set toks. w \<noteq> [] \<and> list_all (\<lambda>c. \<not> is_space c) w \<and> str_lower w = w)
    \<and> cw = take 10 (value_counts toks)
    \<and> length cw \<le> 10 \<and> distinct (map fst cw)
    \<and> (\<forall>(w, n) \<in> set cw. w \<in> set toks \<and> n = count_list toks w \<and> 0 < n)
    \<and> sorted_wrt (\<lambda>a b. snd b \<le> snd a) cw
    \<and> (\<forall>w \<in> set toks. w \<notin> set (map fst cw) \<longrightarrow>
          length cw = 10 \<and> (\<forall>(v, n) \<in> set cw. count_list toks w \<le> n))
    \<and> words_written cw = filter (\<lambda>(w, n). 2 < length w) cw
    \<and> top5_chart cw = (map snd (take 5 (value_counts toks)), map fst (take 5 (value_counts toks)))"
proof -
  have cw: "cw = take 10 (value_counts toks)"
    by (simp add: assms common_words_def)
  have t1: "toks = concat (map (\<lambda>x. py_split (str_lower (astype_str fmt x)))
                         (filter (\<lambda>x. x \<noteq> NA) (cells col)))"
    by (simp add: assms all_text_def py_split_join dropna_def isnull_def comp_def)
  have low: "all_text fmt col = str_lower (join_space (map (astype_str fmt) (dropna (cells col))))"
    by (simp add: all_text_def str_lower_join comp_def)
  have t2: "\<forall>w \<in> set toks. w \<noteq> [] \<and> list_all (\<lambda>c. \<not> is_space c) w \<and> str_lower w = w"
  proof
    fix w assume "w \<in> set toks"
    then have w: "w \<in> set (py_split (all_text fmt col))" by (simp add: assms)
    from py_split_tokens [OF w] have "set w \<subseteq> set (all_text fmt col)" by simp
    then have "str_lower w = w"
      unfolding low by (rule lower_fixed)
    with py_split_tokens [OF w] show "w \<noteq> [] \<and> list_all (\<lambda>c. \<not> is_space c) w \<and> str_lower w = w"
      by simp
  qed
  have t5: "\<forall>(w, n) \<in> set cw. w \<in> set toks \<and> n = count_list toks w \<and> 0 < n"
    using head_facts(3) [OF cw] by blast
  have t7: "\<forall>w \<in> set toks. w \<notin> set (map fst cw) \<longrightarrow>
          length cw = 10 \<and> (\<forall>(v, n) \<in> set cw. count_list toks w \<le> n)"
  proof (intro ballI impI)
    fix w assume w: "w \<in> set toks" "w \<notin> set (map fst cw)"
    have "cw \<noteq> []"
    proof
      assume "cw = []"
      with cw have "value_counts toks = []" by simp
      then have "set (map fst (value_counts toks)) = {}" by simp
      with w show False by (simp only: value_counts_keys) simp
    qed
    then obtain v n where "(v, n) \<in> set cw" by (cases cw) auto
    from head_facts(5) [OF cw w this] have "length cw = 10" by simp
    moreover have "\<forall>(v, n) \<in> set cw. count_list toks w \<le> n"
      using head_facts(5) [OF cw w] by blast
    ultimately show "length cw = 10 \<and> (\<forall>(v, n) \<in> set cw. count_list toks w \<le> n)" ..
  qed
  have t8: "words_written cw = filter (\<lambda>(w, n). 2 < length w) cw"
    by (simp add: words_written_def write_loop_filter)
  have t9: "top5_chart cw = (map snd (take 5 (value_counts toks)), map fst (take 5 (value_counts toks)))"
    by (simp add: top5_chart_def cw)
  show ?thesis
    by (intro conjI t1 t2 cw head_facts(1) [OF cw] head_facts(2) [OF cw] t5
        head_facts(4) [OF cw] t7 t8 t9)
qed

theorem common_words_top10_witness:
  "common_words str_nat avenidas =
     [(''de'', 4), (''la'', 4), (''av'', 2), (''calle'', 2), (''paz'', 1), (''12'', 1),
      (''luz'', 1), (''3'', 1), (''rosa'', 1), (''7'', 1)]
   \<and> words_written (common_words str_nat avenidas) =
       [(''calle'', 2), (''paz'', 1), (''luz'', 1), (''rosa'', 1)]
   \<and> top5_chart (common_words str_nat avenidas) =
       ([4, 4, 2, 2, 1], [''de'', ''la'', ''av'', ''calle'', ''paz''])
   \<and> ''paseo'' \<in> set (py_split (all_text str_nat avenidas))
   \<and> length (common_words str_nat avenidas) = 10"
proof -
  have a: "common_words str_nat avenidas =
     [(''de'', 4), (''la'', 4), (''av'', 2), (''calle'', 2), (''paz'', 1), (''12'', 1),
      (''luz'', 1), (''3'', 1), (''rosa'', 1), (''7'', 1)]"
    by code_simp
  have b: "words_written (common_words str_nat avenidas) =
       [(''calle'', 2), (''paz'', 1), (''luz'', 1), (''rosa'', 1)]"
    by code_simp
  have c: "top5_chart (common_words str_nat avenidas) =
       ([4, 4, 2, 2, 1], [''de'', ''la'', ''av'', ''calle'', ''paz''])"
    by code_simp
  have d: "''paseo'' \<in> set (py_split (all_text str_nat avenidas))"
    by code_simp
  have e: "''paseo'' \<notin> set (map fst (common_words str_nat avenidas))"
    by code_simp
  from common_words_top10 [OF refl refl, of str_nat avenidas] d e
  have "length (common_words str_nat avenidas) = 10" by blast
  with a b c d show ?thesis by simp
qed

subsection \<open>Double precision\<close>

lemma round_half_even_error: "\<bar>of_int (round_half_even x) - x\<bar> \<le> 1 / 2"
proof -
  define f where "f = \<lfloor>x\<rfloor>"
  define d where "d = x - of_int f"
  have x: "x = of_int f + d" by (simp add: d_def)
  have r: "round_half_even x = (if d < 1 / 2 then f else if 1 / 2 < d then f + 1 else if even f then f else f + 1)"
    by (simp add: round_half_even_def Let_def f_def d_def)
  have e: "of_int (round_half_even x) - x =
      (if d < 1 / 2 then - d else if 1 / 2 < d then 1 - d else if even f then - d else 1 - d)"
    by (simp add: r d_def)
  have "0 \<le> d" by (simp add: d_def f_def)
  moreover have "d < 1" unfolding d_def f_def by linarith
  ultimately show ?thesis
    unfolding e by (auto simp add: abs_if)
qed

lemma round_half_even_int: "round_half_even (of_int z) = z"
  by (simp add: round_half_even_def)

lemma round_half_even_nonneg: "0 \<le> x \<Longrightarrow> 0 \<le> round_half_even x"
  by (auto simp add: round_half_even_def Let_def)

lemma pow2_nat: "0 \<le> k \<Longrightarrow> (2::rat) ^ nat k = 2 powi k"
  by (simp add: power_int_def)

lemma ilog2_bounds:
  assumes "0 < x"
  shows "2 powi (ilog2 x) \<le> x" and "x < 2 powi (ilog2 x + 1)"
proof -
  obtain a b where q: "quotient_of x = (a, b)" by (cases "quotient_of x")
  then have x: "x = of_int a / of_int b" and b: "0 < b"
    by (simp_all add: quotient_of_div quotient_of_denom_pos)
  with assms have a: "0 < a" by (simp add: zero_less_divide_iff)
  let ?A = "bitlen a" and ?B = "bitlen b"
  from a b have A: "1 \<le> ?A" and B: "1 \<le> ?B"
    by (simp_all add: bitlen_alt_def)
  have "2 ^ nat (?A - 1) \<le> a" "a < 2 ^ nat ?A" "2 ^ nat (?B - 1) \<le> b" "b < 2 ^ nat ?B"
    using bitlen_bounds [OF a] bitlen_bounds [OF b] by simp_all
  then have "(of_int (2 ^ nat (?A - 1)) :: rat) \<le> of_int a" "(of_int a :: rat) < of_int (2 ^ nat ?A)"
    "(of_int (2 ^ nat (?B - 1)) :: rat) \<le> of_int b" "(of_int b :: rat) < of_int (2 ^ nat ?B)"
    by (simp_all only: of_int_le_iff of_int_less_iff)
  then have ab: "2 powi (?A - 1) \<le> (of_int a :: rat)" "(of_int a :: rat) < 2 powi ?A"
    "2 powi (?B - 1) \<le> (of_int b :: rat)" "(of_int b :: rat) < 2 powi ?B"
    using A B by (simp_all add: pow2_nat)
  have bp: "(0::rat) < of_int b" using b by simp
  have lo: "2 powi (?A - ?B - 1) < x"
  proof -
    have "2 powi (?A - ?B - 1) * of_int b < (2 powi (?A - ?B - 1) * 2 powi ?B :: rat)"
      using ab(4) by (simp add: mult_strict_left_mono)
    also have "\<dots> = 2 powi (?A - 1)"
      by (simp add: power_int_add [symmetric])
    also have "\<dots> \<le> of_int a" by (rule ab(1))
    finally show ?thesis using bp by (simp add: x pos_less_divide_eq)
  qed
  have hi: "x < 2 powi (?A - ?B + 1)"
  proof -
    have "(of_int a :: rat) < 2 powi ?A" by (rule ab(2))
    also have "\<dots> = 2 powi (?A - ?B + 1) * 2 powi (?B - 1)"
      by (simp add: power_int_add [symmetric])
    also have "\<dots> \<le> 2 powi (?A - ?B + 1) * of_int b"
      using ab(3) by (simp add: mult_left_mono)
    finally show ?thesis using bp by (simp add: x pos_divide_less_eq)
  qed
  have e: "ilog2 x = (if 2 powi (?A - ?B) \<le> x then ?A - ?B else ?A - ?B - 1)"
    by (simp add: ilog2_def q Let_def)
  show "2 powi (ilog2 x) \<le> x"
    using lo by (simp add: e)
  show "x < 2 powi (ilog2 x + 1)"
    using hi by (auto simp add: e)
qed

lemma fl_error:
  "\<bar>fl x - x\<bar> \<le> (\<bar>x\<bar> + 1) / 2 ^ 53"
proof (cases "x = 0")
  case True
  then show ?thesis by (simp add: fl_def)
next
  case False
  define e where "e = ilog2 \<bar>x\<bar>"
  define q :: rat where "q = 2 powi (max (e - 52) (- 1074))"
  define k where "k = round_half_even (\<bar>x\<bar> / q)"
  have q0: "0 < q" by (simp add: q_def)
  have f: "fl x = sgn x * (of_int k * q)"
    using False by (simp add: fl_def Let_def e_def q_def k_def)
  have "fl x - x = sgn x * (of_int k * q) - sgn x * \<bar>x\<bar>"
    by (simp only: f mult_sgn_abs)
  then have "fl x - x = sgn x * (of_int k * q - \<bar>x\<bar>)"
    by (simp only: right_diff_distrib)
  then have "\<bar>fl x - x\<bar> = \<bar>of_int k * q - \<bar>x\<bar>\<bar>"
    using False by (simp add: abs_mult abs_sgn_eq)
  also have "of_int k * q - \<bar>x\<bar> = (of_int k - \<bar>x\<bar> / q) * q"
    using q0 by (simp add: left_diff_distrib)
  also have "\<bar>(of_int k - \<bar>x\<bar> / q) * q\<bar> \<le> 1 / 2 * q"
    using round_half_even_error [of "\<bar>x\<bar> / q"] q0
    by (simp add: abs_mult k_def mult_right_mono)
  finally have err: "\<bar>fl x - x\<bar> \<le> q / 2" by simp
  have "q \<le> (\<bar>x\<bar> + 1) / 2 ^ 52"
  proof (cases "- 1074 \<le> e - 52")
    case True
    then have "q = 2 powi e / 2 powi 52"
      by (simp add: q_def power_int_diff)
    also have "2 powi e \<le> \<bar>x\<bar>"
      unfolding e_def using False by (intro ilog2_bounds) simp
    finally show ?thesis
      by (simp add: divide_right_mono)
  next
    case False
    then have "q = 2 powi (- 1074)" by (simp add: q_def)
    also have "\<dots> \<le> 2 powi (- 52)"
      by (rule power_int_increasing) simp_all
    also have "\<dots> = 1 / 2 ^ 52"
      by (simp add: power_int_minus_divide)
    also have "\<dots> \<le> (\<bar>x\<bar> + 1) / 2 ^ 52"
      by (simp add: divide_right_mono)
    finally show ?thesis .
  qed
  then have "q / 2 \<le> (\<bar>x\<bar> + 1) / 2 ^ 52 / 2" by (simp add: divide_right_mono)
  also have "\<dots> = (\<bar>x\<bar> + 1) / 2 ^ 53" by simp
  finally show ?thesis using err by simp
qed

lemma fl_nonneg: "0 \<le> x \<Longrightarrow> 0 \<le> fl x"
  by (auto simp add: fl_def Let_def round_half_even_nonneg)

lemma fl_of_nat:
  assumes "n < 2 ^ 53"
  shows "fl (of_nat n) = of_nat n"
proof (cases "n = 0")
  case True
  then show ?thesis by (simp add: fl_def)
next
  case False
  define x :: rat where "x = of_nat n"
  define e where "e = ilog2 x"
  have x1: "1 \<le> x" using False by (simp add: x_def)
  then have x0: "0 < x" by simp
  have xu: "x < 2 ^ 53"
    using assms unfolding x_def by (metis of_nat_less_iff of_nat_numeral of_nat_power)
  have lo: "2 powi e \<le> x" and hi: "x < 2 powi (e + 1)"
    unfolding e_def using x0 by (rule ilog2_bounds)+
  have e0: "0 \<le> e"
  proof (rule ccontr)
    assume "\<not> 0 \<le> e"
    then have "e + 1 \<le> 0" by simp
    then have "(2::rat) powi (e + 1) \<le> 2 powi 0"
      by (intro power_int_increasing) simp_all
    with hi x1 show False by simp
  qed
  have e52: "e \<le> 52"
  proof (rule ccontr)
    assume "\<not> e \<le> 52"
    then have "53 \<le> e" by simp
    then have "(2::rat) powi 53 \<le> 2 powi e"
      by (intro power_int_increasing) simp_all
    with lo xu show False by simp
  qed
  define j where "j = nat (52 - e)"
  have q: "(2::rat) powi (max (e - 52) (- 1074)) = 1 / 2 ^ j"
  proof -
    from e0 have "max (e - 52) (- 1074) = - int j" using e52 by (simp add: j_def)
    then show ?thesis by (simp add: power_int_minus_divide)
  qed
  have "x * 2 ^ j = of_int (int n * 2 ^ j)"
    by (simp add: x_def)
  then have r: "round_half_even (x * 2 ^ j) = int n * 2 ^ j"
    by (simp only: round_half_even_int)
  have "fl x = of_int (int n * 2 ^ j) * (1 / 2 ^ j)"
    using x0 by (simp add: fl_def Let_def e_def [symmetric] q r)
  then show ?thesis by (simp add: x_def)
qed

lemma fl_error_bound:
  assumes "0 \<le> x" and "x + 1 \<le> c"
  shows "\<bar>fl x - x\<bar> \<le> c * (1 / 2 ^ 53)"
proof -
  have "\<bar>fl x - x\<bar> \<le> (\<bar>x\<bar> + 1) / 2 ^ 53" by (rule fl_error)
  also have "\<dots> = (x + 1) * (1 / 2 ^ 53)" using assms(1) by simp
  also have "\<dots> \<le> c * (1 / 2 ^ 53)"
    using assms(2) by (intro mult_right_mono) simp_all
  finally show ?thesis .
qed

lemma percent_error:
  assumes n: "0 < n" and le: "n \<le> len" and len: "len < 2 ^ 53"
  shows "\<bar>percent n len - of_nat n / of_nat len * 100\<bar> \<le> 1 / 200 + 505 / 2 ^ 53"
proof -
  define t :: rat where "t = 1 / 2 ^ 53"
  have t0: "0 \<le> t" and t1: "t \<le> 1 / 1000000" by (simp_all add: t_def)
  define r :: rat where "r = of_nat n / of_nat len"
  from n le have l0: "0 < len" by simp
  have r0: "0 \<le> r" by (simp add: r_def)
  have r1: "r \<le> 1" using le l0 by (simp add: r_def divide_le_eq_1)
  from le len have "n < 2 ^ 53" by simp
  then have conv: "fl (of_nat n) = of_nat n" "fl (of_nat len) = of_nat len"
    using len by (simp_all add: fl_of_nat)
  define a where "a = fl r"
  define y where "y = fl (a * 100)"
  define z where "z = fl (y * 100)"
  define k where "k = round_half_even z"
  define p where "p = fl (of_int k / 100)"
  have p: "percent n len = p"
    by (simp add: percent_def np_round2_def conv p_def k_def z_def y_def a_def r_def)
  have a0: "0 \<le> a" unfolding a_def using r0 by (rule fl_nonneg)
  have ea: "\<bar>a - r\<bar> \<le> 2 * t"
    unfolding a_def t_def using r0 r1 by (intro fl_error_bound) simp_all
  have y0: "0 \<le> y" unfolding y_def using a0 by (intro fl_nonneg) simp
  have ey: "\<bar>y - a * 100\<bar> \<le> 102 * t"
    unfolding y_def t_def using a0 ea r1 t1 by (intro fl_error_bound) (simp_all add: abs_le_iff)
  have z0: "0 \<le> z" unfolding z_def using y0 by (intro fl_nonneg) simp
  have ez: "\<bar>z - y * 100\<bar> \<le> 10002 * t"
    unfolding z_def t_def using y0 ey ea r1 t1 by (intro fl_error_bound) (simp_all add: abs_le_iff)
  have k0: "0 \<le> k" unfolding k_def using z0 by (rule round_half_even_nonneg)
  have ek: "\<bar>of_int k - z\<bar> \<le> 1 / 2"
    unfolding k_def by (rule round_half_even_error)
  have k1: "(of_int k :: rat) \<le> 10001"
    using ek ez ey ea r1 t1 by linarith
  have ep: "\<bar>p - of_int k / 100\<bar> \<le> 102 * t"
    unfolding p_def t_def using k0 k1 by (intro fl_error_bound) simp_all
  have "\<bar>p - r * 100\<bar> \<le> 1 / 200 + 505 * t"
    using ep ek ez ey ea by linarith
  then show ?thesis
    by (simp add: p r_def t_def)
qed

lemma percent_nonneg: "0 \<le> percent n len"
  by (simp add: percent_def np_round2_def fl_nonneg round_half_even_nonneg)

subsection \<open>The frequency table\<close>

lemma sum_percent:
  "sum_list (map (\<lambda>n. of_nat n / of_nat N * (100::rat)) ns) = of_nat (sum_list ns) / of_nat N * 100"
  by (induction ns) (simp_all add: add_divide_distrib distrib_right)

lemma sum_list_bound:
  "(\<And>x. x \<in> set xs \<Longrightarrow> f x \<le> g x + d) \<Longrightarrow>
     sum_list (map f xs) \<le> sum_list (map g xs) + of_nat (length xs) * (d :: rat)"
proof (induction xs)
  case Nil
  then show ?case by simp
next
  case (Cons x xs)
  have "f x \<le> g x + d" by (rule Cons.prems) simp
  moreover have "sum_list (map f xs) \<le> sum_list (map g xs) + of_nat (length xs) * d"
    by (rule Cons.IH) (simp add: Cons.prems)
  ultimately show ?case by (simp add: distrib_right)
qed

lemma count_list_dropna: "v \<noteq> NA \<Longrightarrow> count_list (dropna xs) v = count_list xs v"
  by (induction xs) (auto simp: dropna_def isnull_def)

text \<open>
  Claim C4, as amended.  For every table with fewer than \<open>2 ^ 53\<close> rows and every
  column of it, the frequency table lists at most 20 values, the first 20 of the count
  table: distinct values that are not missing, each with its number of occurrences, in
  descending order of count, and a value left out occurs no more often than any listed
  one.  Each percentage is count / row count * 100 as the script computes it and rounds
  it to 2 decimals in double precision; it lies within 0.005 + 505 / 2 ^ 53 of the exact
  quotient.  The exact quotients of the listed values sum to at most 100; the listed
  percentages sum to at most 100 plus that margin per listed value.
\<close>

theorem freq_table_top20:
  assumes "wf_table df" and "col \<in> set (columns df)" and "ft = freq_table df col"
    and "nrows df < 2 ^ 53"
  shows "map (\<lambda>(v, n, p). (v, n)) ft = take 20 (value_counts (filter (\<lambda>x. x \<noteq> NA) (cells col)))
    \<and> length ft \<le> 20 \<and> distinct (map fst ft)
    \<and> (\<forall>(v, n, p) \<in> set ft.
          v \<noteq> NA \<and> n = count_list (cells col) v \<and> 0 < n
          \<and> p = percent n (nrows df)
          \<and> \<bar>p - of_nat n / of_nat (nrows df) * 100\<bar> \<le> 1 / 200 + 505 / 2 ^ 53)
    \<and> sorted_wrt (\<lambda>a b. fst (snd b) \<le> fst (snd a)) ft
    \<and> (\<forall>x \<in> set (cells col). x \<noteq> NA \<and> x \<notin> set (map fst ft) \<longrightarrow>
          length ft = 20 \<and> (\<forall>(v, n, p) \<in> set ft. count_list (cells col) x \<le> n))
    \<and> sum_list (map (\<lambda>(v, n, p). of_nat n / of_nat (nrows df) * (100::rat)) ft) \<le> 100
    \<and> sum_list (map (\<lambda>(v, n, p). p) ft) \<le> 100 + of_nat (length ft) * (1 / 200 + 505 / 2 ^ 53)"
proof -
  define xs where "xs = dropna (cells col)"
  define vc where "vc = take 20 (value_counts xs)"
  define pct where "pct = (\<lambda>n. of_nat n / of_nat (nrows df) * (100::rat))"
  have xs: "xs = filter (\<lambda>x. x \<noteq> NA) (cells col)"
    by (simp add: xs_def dropna_def isnull_def)
  have ft: "ft = map (\<lambda>(v, n). (v, n, percent n (nrows df))) vc"
    by (simp add: assms freq_table_def Let_def vc_def xs_def)
  have vc: "vc = take 20 (value_counts xs)" by (rule vc_def)
  have fst_ft: "map fst ft = map fst vc"
    by (simp add: ft comp_def case_prod_beta)
  have len: "length ft = length vc" by (simp add: ft)
  have mem: "(v, n, p) \<in> set ft \<longleftrightarrow> (v, n) \<in> set vc \<and> p = percent n (nrows df)" for v n p
    by (auto simp add: ft)
  from assms(1,2) have cells: "length (cells col) = nrows df"
    by (simp add: wf_table_def list_all_iff)
  have c1: "map (\<lambda>(v, n, p). (v, n)) ft = take 20 (value_counts (filter (\<lambda>x. x \<noteq> NA) (cells col)))"
    by (simp add: ft comp_def case_prod_beta vc xs)
  have c2: "length ft \<le> 20" using head_facts(1) [OF vc] by (simp add: len)
  have c3: "distinct (map fst ft)" using head_facts(2) [OF vc] by (simp only: fst_ft)
  have entry: "v \<noteq> NA \<and> n = count_list (cells col) v \<and> 0 < n \<and> n \<le> nrows df"
    if "(v, n) \<in> set vc" for v n
  proof -
    from head_facts(3) [OF vc that] have v: "v \<in> set xs" "n = count_list xs v" "0 < n" by simp_all
    from v(1) have na: "v \<noteq> NA" by (auto simp add: xs)
    with v have n: "n = count_list (cells col) v" by (simp add: xs_def count_list_dropna)
    have "count_list (cells col) v \<le> length (cells col)" by (rule count_le_length)
    with na n v(3) show ?thesis by (simp add: cells)
  qed
  have close: "\<bar>percent n (nrows df) - pct n\<bar> \<le> 1 / 200 + 505 / 2 ^ 53"
    if "(v, n) \<in> set vc" for v n
    unfolding pct_def using entry [OF that] assms(4) by (intro percent_error) simp_all
  have c4: "\<forall>(v, n, p) \<in> set ft.
          v \<noteq> NA \<and> n = count_list (cells col) v \<and> 0 < n
          \<and> p = percent n (nrows df)
          \<and> \<bar>p - of_nat n / of_nat (nrows df) * 100\<bar> \<le> 1 / 200 + 505 / 2 ^ 53"
  proof -
    have "v \<noteq> NA \<and> n = count_list (cells col) v \<and> 0 < n \<and> p = percent n (nrows df)
        \<and> \<bar>p - pct n\<bar> \<le> 1 / 200 + 505 / 2 ^ 53"
      if "(v, n, p) \<in> set ft" for v n p
    proof -
      from that have vn: "(v, n) \<in> set vc" and p: "p = percent n (nrows df)" by (simp_all add: mem)
      from entry [OF vn] close [OF vn] p show ?thesis by simp
    qed
    then show ?thesis unfolding pct_def by fast
  qed
  have c5: "sorted_wrt (\<lambda>a b. fst (snd b) \<le> fst (snd a)) ft"
  proof -
    have "sorted_wrt (\<lambda>a b. snd b \<le> snd a) vc" by (rule head_facts(4) [OF vc])
    then show ?thesis
      by (simp add: ft sorted_wrt_map case_prod_beta)
  qed
  have c6: "\<forall>x \<in> set (cells col). x \<noteq> NA \<and> x \<notin> set (map fst ft) \<longrightarrow>
          length ft = 20 \<and> (\<forall>(v, n, p) \<in> set ft. count_list (cells col) x \<le> n)"
  proof (intro ballI impI)
    fix x assume x: "x \<in> set (cells col)" and h: "x \<noteq> NA \<and> x \<notin> set (map fst ft)"
    from h have na: "x \<noteq> NA" by (rule conjunct1)
    from h have nx: "x \<notin> set (map fst vc)" unfolding fst_ft by (rule conjunct2)
    from x na have xx: "x \<in> set xs" by (simp add: xs)
    have "vc \<noteq> []"
    proof
      assume "vc = []"
      with vc have "value_counts xs = []" by simp
      then have "set (map fst (value_counts xs)) = {}" by simp
      with xx show False by (simp only: value_counts_keys) simp
    qed
    then obtain v n where "(v, n) \<in> set vc" by (cases vc) auto
    from head_facts(5) [OF vc xx nx this] have "length ft = 20" by (simp add: len)
    moreover have "\<forall>(v, n, p) \<in> set ft. count_list (cells col) x \<le> n"
      using head_facts(5) [OF vc xx nx] na by (auto simp add: mem xs_def count_list_dropna)
    ultimately show "length ft = 20 \<and> (\<forall>(v, n, p) \<in> set ft. count_list (cells col) x \<le> n)" ..
  qed
  have tot: "sum_list (map snd vc) \<le> nrows df"
  proof -
    have "sum_list (map snd vc) \<le> sum_list (map snd (value_counts xs))"
      unfolding vc by (rule head_sum)
    also have "\<dots> = length xs" by (rule value_counts_sum)
    also have "\<dots> \<le> length (cells col)" by (simp add: xs)
    also have "length (cells col) = nrows df" by (rule cells)
    finally show ?thesis .
  qed
  have exact: "map (\<lambda>(v, n, p). of_nat n / of_nat (nrows df) * (100::rat)) ft = map pct (map snd vc)"
    by (simp add: ft comp_def case_prod_beta pct_def)
  have rounded: "map (\<lambda>(v, n, p). p) ft = map (\<lambda>e. percent (snd e) (nrows df)) vc"
    by (simp add: ft comp_def case_prod_beta)
  have s100: "sum_list (map pct (map snd vc)) \<le> 100"
  proof -
    have "sum_list (map pct (map snd vc)) = of_nat (sum_list (map snd vc)) / of_nat (nrows df) * 100"
      unfolding pct_def by (rule sum_percent)
    also have "\<dots> \<le> 100"
    proof (cases "nrows df = 0")
      case True
      then show ?thesis by simp
    next
      case False
      from tot have "(of_nat (sum_list (map snd vc)) :: rat) \<le> of_nat (nrows df)"
        using of_nat_le_iff by blast
      with False have "(of_nat (sum_list (map snd vc)) :: rat) / of_nat (nrows df) \<le> 1"
        by (simp add: divide_le_eq_1)
      then have "(of_nat (sum_list (map snd vc)) :: rat) / of_nat (nrows df) * 100 \<le> 1 * 100"
        by (rule mult_right_mono) simp
      then show ?thesis by (simp only: mult_1)
    qed
    finally show ?thesis .
  qed
  have c7: "sum_list (map (\<lambda>(v, n, p). of_nat n / of_nat (nrows df) * (100::rat)) ft) \<le> 100"
    by (simp only: exact s100)
  have c8: "sum_list (map (\<lambda>(v, n, p). p) ft) \<le> 100 + of_nat (length ft) * (1 / 200 + 505 / 2 ^ 53)"
  proof -
    have "percent (snd e) (nrows df) \<le> pct (snd e) + (1 / 200 + 505 / 2 ^ 53)"
      if "e \<in> set vc" for e
    proof -
      from that have "(fst e, snd e) \<in> set vc" by simp
      from close [OF this] show ?thesis by linarith
    qed
    then have "sum_list (map (\<lambda>e. percent (snd e) (nrows df)) vc)
            \<le> sum_list (map (\<lambda>e. pct (snd e)) vc) + of_nat (length vc) * (1 / 200 + 505 / 2 ^ 53)"
      by (rule sum_list_bound)
    moreover have "sum_list (map (\<lambda>e. pct (snd e)) vc) = sum_list (map pct (map snd vc))"
      by (simp add: comp_def)
    ultimately have "sum_list (map (\<lambda>e. percent (snd e) (nrows df)) vc)
            \<le> 100 + of_nat (length vc) * (1 / 200 + 505 / 2 ^ 53)"
      using s100 by linarith
    then show ?thesis by (simp only: rounded len)
  qed
  show ?thesis
    by (intro conjI c1 c2 c3 c4 c5 c6 c7 c8)
qed

lemma percent_1_6: "percent 1 6 = 1173046965441659 / 70368744177664"
  by code_simp

lemma percent_23_160: "percent 23 160 = 8089590830664253 / 562949953421312"
  by code_simp

lemma percent_137_160: "percent 137 160 = 753121484561449 / 8796093022208"
  by code_simp

lemma counts_six_rows:
  "take 20 (value_counts (dropna (cells (hd (columns six_rows))))) =
     [(Str ''a'', 1), (Str ''b'', 1), (Str ''c'', 1), (Str ''d'', 1), (Str ''e'', 1), (Str ''f'', 1)]"
  by code_simp

lemma counts_rows_160:
  "take 20 (value_counts (dropna (cells (hd (columns rows_160))))) =
     [(Str ''Madrid'', 137), (Str ''Sevilla'', 23)]"
  by code_simp

text \<open>
  Six rows with six different values: every percentage is the double nearest to 16.67,
  which is \<open>1173046965441659 / 2 ^ 46\<close>.
\<close>

lemma freq_table_six_rows:
  "freq_table six_rows (hd (columns six_rows)) =
     [(Str ''a'', 1, 1173046965441659 / 70368744177664),
      (Str ''b'', 1, 1173046965441659 / 70368744177664),
      (Str ''c'', 1, 1173046965441659 / 70368744177664),
      (Str ''d'', 1, 1173046965441659 / 70368744177664),
      (Str ''e'', 1, 1173046965441659 / 70368744177664),
      (Str ''f'', 1, 1173046965441659 / 70368744177664)]"
proof -
  have n: "nrows six_rows = 6" by (simp add: six_rows_def)
  show ?thesis
    unfolding freq_table_def Let_def counts_six_rows n
    by (simp only: list.map prod.case percent_1_6)
qed

text \<open>
  160 rows, one value 137 times and the other 23 times: the percentages are the doubles
  nearest to 85.62 and to 14.37.
\<close>

lemma freq_table_rows_160:
  "freq_table rows_160 (hd (columns rows_160)) =
     [(Str ''Madrid'', 137, 753121484561449 / 8796093022208),
      (Str ''Sevilla'', 23, 8089590830664253 / 562949953421312)]"
proof -
  have n: "nrows rows_160 = 160" by (simp add: rows_160_def)
  show ?thesis
    unfolding freq_table_def Let_def counts_rows_160 n
    by (simp only: list.map prod.case percent_23_160 percent_137_160)
qed

theorem freq_table_top20_witness:
  "wf_table six_rows \<and> hd (columns six_rows) \<in> set (columns six_rows)
   \<and> nrows six_rows < 2 ^ 53
   \<and> freq_table six_rows (hd (columns six_rows)) =
       [(Str ''a'', 1, 1173046965441659 / 70368744177664),
        (Str ''b'', 1, 1173046965441659 / 70368744177664),
        (Str ''c'', 1, 1173046965441659 / 70368744177664),
        (Str ''d'', 1, 1173046965441659 / 70368744177664),
        (Str ''e'', 1, 1173046965441659 / 70368744177664),
        (Str ''f'', 1, 1173046965441659 / 70368744177664)]
   \<and> sum_list (map (\<lambda>(v, n, p). p) (freq_table six_rows (hd (columns six_rows))))
       \<le> 100 + of_nat (length (freq_table six_rows (hd (columns six_rows)))) * (1 / 200 + 505 / 2 ^ 53)"
proof -
  have w: "wf_table six_rows" by (simp add: wf_table_def six_rows_def)
  have c: "hd (columns six_rows) \<in> set (columns six_rows)" by (simp add: six_rows_def)
  have n: "nrows six_rows < 2 ^ 53" by (simp add: six_rows_def)
  note t = freq_table_top20 [OF w c refl n]
  from t have s: "sum_list (map (\<lambda>(v, n, p). p) (freq_table six_rows (hd (columns six_rows))))
       \<le> 100 + of_nat (length (freq_table six_rows (hd (columns six_rows)))) * (1 / 200 + 505 / 2 ^ 53)"
    by (elim conjE)
  show ?thesis
    by (intro conjI w c n freq_table_six_rows s)
qed

text \<open>
  Claim C4, as stated, fails twice.  Six rows with six different values give six times
  the double nearest to 16.67, and these sum to more than 100.  And a value that occurs
  23 times in 160 rows has the exact percentage 14.375, whose rounding to 2 decimals is
  14.38; the script computes the percentage in double precision, just below 14.375, and
  lists the double nearest to 14.37.
\<close>

theorem freq_table_sum_exceeds:
  "100 < sum_list (map (snd \<circ> snd) (freq_table six_rows (hd (columns six_rows))))
   \<and> freq_table rows_160 (hd (columns rows_160)) =
       [(Str ''Madrid'', 137, 753121484561449 / 8796093022208),
        (Str ''Sevilla'', 23, 8089590830664253 / 562949953421312)]
   \<and> of_int (round_half_even (of_nat 23 / of_nat 160 * 100 * 100)) / 100 = (1438 / 100 :: rat)
   \<and> snd (snd (freq_table rows_160 (hd (columns rows_160)) ! 1)) < 1438 / 100"
proof -
  have "100 < sum_list (map (snd \<circ> snd) (freq_table six_rows (hd (columns six_rows))))"
    unfolding freq_table_six_rows by simp
  moreover have "of_int (round_half_even (of_nat 23 / of_nat 160 * 100 * 100)) / 100 = (1438 / 100 :: rat)"
    by code_simp
  moreover have "snd (snd (freq_table rows_160 (hd (columns rows_160)) ! 1)) < 1438 / 100"
    unfolding freq_table_rows_160 by simp
  ultimately show ?thesis using freq_table_rows_160 by simp
qed

subsection \<open>The row filter\<close>

lemma select_rows_Cons:
  "select_rows (b # bs) (x # xs) = (if b then x # select_rows bs xs else select_rows bs xs)"
  by (simp add: select_rows_def)

lemma filter_nth_Suc:
  "filter ((!) (b # bs)) (map Suc ks) = map Suc (filter ((!) bs) ks)"
  by (simp add: filter_map comp_def)

lemma upt_Suc_shift: "[0..<Suc n] = 0 # map Suc [0..<n]"
  by (simp add: upt_conv_Cons map_Suc_upt del: upt_Suc)

lemma select_rows_nth:
  "length msk = length xs \<Longrightarrow>
     select_rows msk xs = map ((!) xs) (filter ((!) msk) [0..<length xs])"
proof (induction msk xs rule: list_induct2)
  case Nil
  then show ?case by (simp add: select_rows_def)
next
  case (Cons b bs x xs)
  have "map ((!) (x # xs)) (filter ((!) (b # bs)) [0..<length (x # xs)])
      = (if b then [x] else []) @ map ((!) (x # xs)) (map Suc (filter ((!) bs) [0..<length xs]))"
    by (simp add: upt_Suc_shift filter_nth_Suc del: upt_Suc)
  also have "map ((!) (x # xs)) (map Suc (filter ((!) bs) [0..<length xs]))
      = map ((!) xs) (filter ((!) bs) [0..<length xs])"
    by (simp add: comp_def)
  finally show ?case
    by (simp add: select_rows_Cons Cons.IH del: upt_Suc)
qed

lemma count_true: "length (filter id msk) = length (filter ((!) msk) [0..<length msk])"
proof (induction msk)
  case Nil
  then show ?case by simp
next
  case (Cons b bs)
  have "length (filter ((!) (b # bs)) [0..<length (b # bs)])
      = (if b then 1 else 0) + length (map Suc (filter ((!) bs) [0..<length bs]))"
    by (simp add: upt_Suc_shift filter_nth_Suc del: upt_Suc)
  with Cons show ?case by simp
qed

lemma str_contains_hits:
  "re_compile rx pat = Some m \<Longrightarrow> length (cells col) = n \<Longrightarrow>
     str_contains rx fmt pat col = Inr (map (\<lambda>i. m (astype_str fmt (cells col ! i))) [0..<n])"
proof -
  assume c: "re_compile rx pat = Some m" and n: "length (cells col) = n"
  have "map (\<lambda>x. m (astype_str fmt x)) (cells col)
          = map (\<lambda>i. m (astype_str fmt (cells col ! i))) [0..<length (cells col)]"
    by (rule nth_equalityI) simp_all
  with c n show ?thesis by (simp add: str_contains_def)
qed

lemma mask_loop_some:
  assumes c: "re_compile rx pat = Some m"
  shows "list_all (\<lambda>c. length (cells c) = n) cols \<Longrightarrow> length m0 = n \<Longrightarrow>
     mask_loop rx fmt pat (Some m0) cols =
       Inr (Some (map (\<lambda>i. m0 ! i \<or> (\<exists>c \<in> set cols. m (astype_str fmt (cells c ! i)))) [0..<n]))"
proof (induction cols arbitrary: m0)
  case Nil
  then have "map ((!) m0) [0..<n] = m0" by (auto simp add: map_nth)
  then show ?case by simp
next
  case (Cons col cols)
  let ?hits = "map (\<lambda>i. m (astype_str fmt (cells col ! i))) [0..<n]"
  from Cons.prems have len: "length (cells col) = n" and rest: "list_all (\<lambda>c. length (cells c) = n) cols"
    by simp_all
  have h: "str_contains rx fmt pat col = Inr ?hits"
    using c len by (rule str_contains_hits)
  have l2: "length (map2 (\<or>) m0 ?hits) = n" using Cons.prems by simp
  have nth: "map2 (\<or>) m0 ?hits ! i = (m0 ! i \<or> m (astype_str fmt (cells col ! i)))" if "i < n" for i
    using that Cons.prems by simp
  have "mask_loop rx fmt pat (Some m0) (col # cols)
          = mask_loop rx fmt pat (Some (map2 (\<or>) m0 ?hits)) cols"
    by (simp add: h)
  also have "\<dots> = Inr (Some (map (\<lambda>i. map2 (\<or>) m0 ?hits ! i
                    \<or> (\<exists>c \<in> set cols. m (astype_str fmt (cells c ! i)))) [0..<n]))"
    using rest l2 by (rule Cons.IH)
  also have "map (\<lambda>i. map2 (\<or>) m0 ?hits ! i \<or> (\<exists>c \<in> set cols. m (astype_str fmt (cells c ! i)))) [0..<n]
        = map (\<lambda>i. m0 ! i \<or> (\<exists>c \<in> set (col # cols). m (astype_str fmt (cells c ! i)))) [0..<n]"
    by (rule map_cong) (auto simp add: nth)
  finally show ?case .
qed

lemma mask_loop_none:
  assumes c: "re_compile rx pat = Some m"
    and wf: "list_all (\<lambda>c. length (cells c) = n) cols" and ne: "cols \<noteq> []"
  shows "mask_loop rx fmt pat None cols =
       Inr (Some (map (\<lambda>i. \<exists>c \<in> set cols. m (astype_str fmt (cells c ! i))) [0..<n]))"
proof -
  from ne obtain col rest where cols: "cols = col # rest" by (cases cols) auto
  let ?hits = "map (\<lambda>i. m (astype_str fmt (cells col ! i))) [0..<n]"
  from wf cols have len: "length (cells col) = n" and rest: "list_all (\<lambda>c. length (cells c) = n) rest"
    by simp_all
  have h: "str_contains rx fmt pat col = Inr ?hits"
    using c len by (rule str_contains_hits)
  have "mask_loop rx fmt pat None cols = mask_loop rx fmt pat (Some ?hits) rest"
    by (simp add: cols h)
  also have "\<dots> = Inr (Some (map (\<lambda>i. ?hits ! i
                    \<or> (\<exists>c \<in> set rest. m (astype_str fmt (cells c ! i)))) [0..<n]))"
    using c rest by (rule mask_loop_some) simp
  also have "map (\<lambda>i. ?hits ! i \<or> (\<exists>c \<in> set rest. m (astype_str fmt (cells c ! i)))) [0..<n]
        = map (\<lambda>i. \<exists>c \<in> set cols. m (astype_str fmt (cells c ! i))) [0..<n]"
    by (rule map_cong) (auto simp add: cols)
  finally show ?thesis .
qed

lemma mask_loop_error:
  "re_compile rx pat = None \<Longrightarrow> cols \<noteq> [] \<Longrightarrow> mask_loop rx fmt pat msk cols = Inl ReError"
  by (cases cols) (simp_all add: str_contains_def)

lemma getitem_mask_rows:
  assumes wf: "wf_table df" and len: "length msk = nrows df"
  shows "getitem_mask msk df =
     \<lparr>nrows = length (filter ((!) msk) [0..<nrows df]),
      columns = map (\<lambda>c. c\<lparr>cells := map ((!) (cells c)) (filter ((!) msk) [0..<nrows df])\<rparr>) (columns df)\<rparr>"
proof -
  have "select_rows msk (cells c) = map ((!) (cells c)) (filter ((!) msk) [0..<nrows df])"
    if "c \<in> set (columns df)" for c
  proof -
    from that wf have "length (cells c) = nrows df" by (simp add: wf_table_def list_all_iff)
    with len select_rows_nth [of msk "cells c"] show ?thesis by simp
  qed
  then have "map (\<lambda>c. c\<lparr>cells := select_rows msk (cells c)\<rparr>) (columns df)
     = map (\<lambda>c. c\<lparr>cells := map ((!) (cells c)) (filter ((!) msk) [0..<nrows df])\<rparr>) (columns df)"
    by (intro map_cong) simp_all
  moreover have "length (filter id msk) = length (filter ((!) msk) [0..<nrows df])"
    using count_true [of msk] len by simp
  ultimately show ?thesis by (simp add: getitem_mask_def)
qed

lemma filter_map_upt:
  "filter ((!) (map P [0..<n])) [0..<n] = filter P [0..<n]"
  by (rule filter_cong) simp_all

lemma re_compile_literal:
  "\<not> list_ex re_special pat \<Longrightarrow>
     re_compile rx pat = Some (\<lambda>s. \<exists>pre suf. str_lower s = pre @ str_lower pat @ suf)"
  by (simp add: re_compile_def str_in_iff)

lemma search_filter_kept:
  assumes "wf_table df" and "search_term \<noteq> []"
    and "text_cols = filter (\<lambda>c. ctype c = Object) (columns df)" and "text_cols \<noteq> []"
    and "kept = filter (\<lambda>i. \<exists>c \<in> set text_cols. m (astype_str fmt (cells c ! i))) [0..<nrows df]"
    and c: "re_compile rx search_term = Some m"
  shows "search_filter rx fmt search_term df =
              Inr \<lparr>nrows = length kept,
                   columns = map (\<lambda>c. c\<lparr>cells := map ((!) (cells c)) kept\<rparr>) (columns df)\<rparr>"
proof -
  let ?msk = "map (\<lambda>i. \<exists>c \<in> set text_cols. m (astype_str fmt (cells c ! i))) [0..<nrows df]"
  from assms(1,3) have wf: "list_all (\<lambda>c. length (cells c) = nrows df) text_cols"
    by (simp add: wf_table_def list_all_iff)
  have loop: "mask_loop rx fmt search_term None text_cols = Inr (Some ?msk)"
    using c wf assms(4) by (rule mask_loop_none)
  have k: "filter ((!) ?msk) [0..<nrows df] = kept"
    unfolding assms(5) by (rule filter_map_upt)
  have "search_filter rx fmt search_term df = Inr (getitem_mask ?msk df)"
    using assms(2) loop by (simp add: search_filter_def assms(3) [symmetric])
  also have "getitem_mask ?msk df =
     \<lparr>nrows = length (filter ((!) ?msk) [0..<nrows df]),
      columns = map (\<lambda>c. c\<lparr>cells := map ((!) (cells c)) (filter ((!) ?msk) [0..<nrows df])\<rparr>) (columns df)\<rparr>"
    using assms(1) by (rule getitem_mask_rows) simp
  finally show ?thesis
    by (simp only: k)
qed

text \<open>
  Claim C1, as amended.  For every well-formed table with at least one selected
  text-typed column and every non-empty search term: when the term compiles as a regular
  expression, the row filter gives the table of the kept rows, in their order and with all
  their columns, where a row is kept when a value that is not missing, in some text-typed
  column, matches the term, and a row whose text-typed values are all present is kept only
  when one of them matches; when the term does not compile, the filter raises.  A term
  with no special character compiles, and matches the texts that contain it, case
  ignored; a term with an opening parenthesis and no closing parenthesis, bracket or
  backslash does not compile.  For any other term the matcher is the regular expression
  engine's.  Nothing is said of how a missing value is tested.
\<close>

theorem search_filter_rows:
  assumes "wf_table df" and "search_term \<noteq> []"
    and "text_cols = filter (\<lambda>c. ctype c = Object) (columns df)" and "text_cols \<noteq> []"
  shows "(re_compile rx search_term = Some m \<longrightarrow>
            (\<exists>K. search_filter rx fmt search_term df =
                   Inr \<lparr>nrows = length (filter K [0..<nrows df]),
                        columns = map (\<lambda>c. c\<lparr>cells := map ((!) (cells c)) (filter K [0..<nrows df])\<rparr>)
                                    (columns df)\<rparr>
               \<and> (\<forall>i < nrows df.
                     (\<exists>c \<in> set text_cols. cells c ! i \<noteq> NA \<and> m (astype_str fmt (cells c ! i)))
                     \<longrightarrow> K i)
               \<and> (\<forall>i < nrows df.
                     (\<forall>c \<in> set text_cols. cells c ! i \<noteq> NA) \<and> K i
                     \<longrightarrow> (\<exists>c \<in> set text_cols. m (astype_str fmt (cells c ! i))))))
       \<and> (re_compile rx search_term = None \<longrightarrow>
            search_filter rx fmt search_term df = Inl ReError)
       \<and> (\<not> list_ex re_special search_term \<longrightarrow>
            re_compile rx search_term =
              Some (\<lambda>s. \<exists>pre suf. str_lower s = pre @ str_lower search_term @ suf))
       \<and> (CHR ''('' \<in> set search_term \<and> CHR '')'' \<notin> set search_term
            \<and> CHR ''['' \<notin> set search_term \<and> CHR 0x5C \<notin> set search_term \<longrightarrow>
            re_compile rx search_term = None)"
proof (intro conjI impI)
  assume c: "re_compile rx search_term = Some m"
  let ?K = "\<lambda>i. \<exists>c \<in> set text_cols. m (astype_str fmt (cells c ! i))"
  have "search_filter rx fmt search_term df =
          Inr \<lparr>nrows = length (filter ?K [0..<nrows df]),
               columns = map (\<lambda>c. c\<lparr>cells := map ((!) (cells c)) (filter ?K [0..<nrows df])\<rparr>)
                           (columns df)\<rparr>"
    using assms refl c by (rule search_filter_kept)
  moreover have "\<forall>i < nrows df.
      (\<exists>c \<in> set text_cols. cells c ! i \<noteq> NA \<and> m (astype_str fmt (cells c ! i))) \<longrightarrow> ?K i"
    by blast
  moreover have "\<forall>i < nrows df.
      (\<forall>c \<in> set text_cols. cells c ! i \<noteq> NA) \<and> ?K i
        \<longrightarrow> (\<exists>c \<in> set text_cols. m (astype_str fmt (cells c ! i)))"
    by blast
  ultimately show "\<exists>K. search_filter rx fmt search_term df =
                   Inr \<lparr>nrows = length (filter K [0..<nrows df]),
                        columns = map (\<lambda>c. c\<lparr>cells := map ((!) (cells c)) (filter K [0..<nrows df])\<rparr>)
                                    (columns df)\<rparr>
               \<and> (\<forall>i < nrows df.
                     (\<exists>c \<in> set text_cols. cells c ! i \<noteq> NA \<and> m (astype_str fmt (cells c ! i)))
                     \<longrightarrow> K i)
               \<and> (\<forall>i < nrows df.
                     (\<forall>c \<in> set text_cols. cells c ! i \<noteq> NA) \<and> K i
                     \<longrightarrow> (\<exists>c \<in> set text_cols. m (astype_str fmt (cells c ! i))))"
    by (intro exI [of _ ?K] conjI)
next
  assume "re_compile rx search_term = None"
  then have "mask_loop rx fmt search_term None text_cols = Inl ReError"
    using assms(4) by (rule mask_loop_error)
  then show "search_filter rx fmt search_term df = Inl ReError"
    using assms(2) by (simp add: search_filter_def assms(3) [symmetric])
next
  assume "\<not> list_ex re_special search_term"
  then show "re_compile rx search_term =
              Some (\<lambda>s. \<exists>pre suf. str_lower s = pre @ str_lower search_term @ suf)"
    by (rule re_compile_literal)
next
  assume p: "CHR ''('' \<in> set search_term \<and> CHR '')'' \<notin> set search_term
            \<and> CHR ''['' \<notin> set search_term \<and> CHR 0x5C \<notin> set search_term"
  then have "list_ex re_special search_term"
    by (auto simp add: list_ex_iff re_special_def)
  with p show "re_compile rx search_term = None"
    by (simp add: re_compile_def)
qed

theorem search_filter_rows_witness:
  "wf_table envios
   \<and> filter (\<lambda>c. ctype c = Object) (columns envios) \<noteq> []
   \<and> re_compile rx_unused ''mayor'' = Some (\<lambda>s. \<exists>pre suf. str_lower s = pre @ str_lower ''mayor'' @ suf)
   \<and> search_filter rx_unused str_nat ''mayor'' envios =
       Inr \<lparr>nrows = 2, columns =
         [\<lparr>cname = ''direccion'', ctype = Object, cells = [Str ''Calle Mayor 5'', Str ''Av. Libertad, 3'']\<rparr>,
          \<lparr>cname = ''piso'', ctype = Number, cells = [Val 2, NA]\<rparr>,
          \<lparr>cname = ''nota'', ctype = Object, cells = [NA, Str ''mayorista'']\<rparr>]\<rparr>
   \<and> re_compile rx_unused ''(calle'' = None
   \<and> search_filter rx_unused str_nat ''(calle'' envios = Inl ReError"
proof -
  have w: "wf_table envios" by code_simp
  have t: "filter (\<lambda>c. ctype c = Object) (columns envios) \<noteq> []" by code_simp
  have lit: "\<not> list_ex re_special ''mayor''" by code_simp
  have par: "CHR ''('' \<in> set ''(calle'' \<and> CHR '')'' \<notin> set ''(calle''
            \<and> CHR ''['' \<notin> set ''(calle'' \<and> CHR 0x5C \<notin> set ''(calle''" by simp
  note th = search_filter_rows [OF w _ refl t, where rx = rx_unused and fmt = str_nat]
  have ne1: "''mayor'' \<noteq> []" and ne2: "''(calle'' \<noteq> []" by simp_all
  from th [OF ne1] lit
  have c: "re_compile rx_unused ''mayor'' = Some (\<lambda>s. \<exists>pre suf. str_lower s = pre @ str_lower ''mayor'' @ suf)"
    by blast
  from th [OF ne2] par have bad: "re_compile rx_unused ''(calle'' = None"
    by blast
  with th [OF ne2]
  have e: "search_filter rx_unused str_nat ''(calle'' envios = Inl ReError"
    by blast
  have s: "search_filter rx_unused str_nat ''mayor'' envios =
       Inr \<lparr>nrows = 2, columns =
         [\<lparr>cname = ''direccion'', ctype = Object, cells = [Str ''Calle Mayor 5'', Str ''Av. Libertad, 3'']\<rparr>,
          \<lparr>cname = ''piso'', ctype = Number, cells = [Val 2, NA]\<rparr>,
          \<lparr>cname = ''nota'', ctype = Object, cells = [NA, Str ''mayorista'']\<rparr>]\<rparr>"
    by code_simp
  from w t c s bad e show ?thesis by (intro conjI)
qed

text \<open>
  Claim C1, as stated, fails on the search term \<open>(\<close>: it is no regular expression,
  and the filter raises.
\<close>

theorem search_filter_fails:
  "search_filter rx_unused str_nat ''('' envios = Inl ReError"
  by code_simp

text \<open>
  Claim C9.  On the address column with the rows Calle Mayor 5 and Av. Libertad, the
  search term mayor keeps exactly the first row, whatever the case of its letters.
\<close>

theorem search_mayor_example:
  "search_filter rx fmt ''mayor''
     \<lparr>nrows = 2, columns = [\<lparr>cname = ''direccion'', ctype = Object,
        cells = [Str ''Calle Mayor 5'', Str ''Av. Libertad'']\<rparr>]\<rparr>
   = Inr \<lparr>nrows = 1, columns = [\<lparr>cname = ''direccion'', ctype = Object,
        cells = [Str ''Calle Mayor 5'']\<rparr>]\<rparr>"
proof -
  have lit: "list_ex re_special ''mayor'' = False" by code_simp
  have hit: "str_in (str_lower ''mayor'') (str_lower ''Calle Mayor 5'') = True" by code_simp
  have miss: "str_in (str_lower ''mayor'') (str_lower ''Av. Libertad'') = False" by code_simp
  have c: "re_compile rx ''mayor'' = Some (\<lambda>s. str_in (str_lower ''mayor'') (str_lower s))"
    unfolding re_compile_def by (simp only: lit simp_thms if_True)
  show ?thesis
    unfolding search_filter_def
    by (simp add: str_contains_def c hit miss astype_str_def getitem_mask_def select_rows_def
        del: str_in.simps)
qed

lemma table_rows_head: "table_rows (head n d) = take n (table_rows d)"
proof -
  have "row_at (head n d) i = row_at d i" if "i < n" for i
    using that by (simp add: row_at_def head_def comp_def)
  then have "map (row_at (head n d)) [0..<min n (nrows d)] = map (row_at d) [0..<min n (nrows d)]"
    by (intro map_cong) simp_all
  moreover have "take n [0..<nrows d] = [0..<min n (nrows d)]"
    by (cases "n \<le> nrows d") (simp_all add: min_def)
  ultimately show ?thesis
    by (simp add: table_rows_def head_def take_map)
qed

text \<open>
  Claim C10.  Whenever the column and search filters give a table, the download is the
  CSV text of that whole table, one record for each of its rows, whatever the row cap: two
  row caps give the same download, and the cap only cuts the shown table to its first
  \<open>show_rows\<close> rows.
\<close>

theorem export_ignores_row_cap:
  assumes "display_df rx fmt df columns_to_show search_term = Inr d"
  shows "tab4 rx quote_cr fmt df show_rows columns_to_show search_term
           = Inr (head show_rows d, to_csv quote_cr fmt d)
     \<and> map_sum id snd (tab4 rx quote_cr fmt df show_rows columns_to_show search_term)
         = map_sum id snd (tab4 rx quote_cr fmt df other_rows columns_to_show search_term)
     \<and> to_csv quote_cr fmt d =
         csv_record quote_cr (map cname (columns d))
         @ concat (map (\<lambda>i. csv_record quote_cr (map (\<lambda>c. to_csv_cell fmt (cells c ! i)) (columns d)))
                     [0..<nrows d])
     \<and> nrows (head show_rows d) = min show_rows (nrows d)
     \<and> table_rows (head show_rows d) = take show_rows (table_rows d)"
proof (intro conjI)
  show "tab4 rx quote_cr fmt df show_rows columns_to_show search_term
           = Inr (head show_rows d, to_csv quote_cr fmt d)"
    by (simp add: tab4_def assms)
  show "map_sum id snd (tab4 rx quote_cr fmt df show_rows columns_to_show search_term)
         = map_sum id snd (tab4 rx quote_cr fmt df other_rows columns_to_show search_term)"
    by (simp add: tab4_def assms)
  show "to_csv quote_cr fmt d =
         csv_record quote_cr (map cname (columns d))
         @ concat (map (\<lambda>i. csv_record quote_cr (map (\<lambda>c. to_csv_cell fmt (cells c ! i)) (columns d)))
                     [0..<nrows d])"
    by (simp add: to_csv_def table_rows_def row_at_def comp_def)
  show "nrows (head show_rows d) = min show_rows (nrows d)"
    by (simp add: head_def)
  show "table_rows (head show_rows d) = take show_rows (table_rows d)"
    by (rule table_rows_head)
qed

theorem export_ignores_row_cap_witness:
  "display_df rx_unused str_nat envios [''nota'', ''direccion''] ''a''
     = Inr \<lparr>nrows = 3, columns =
         [\<lparr>cname = ''nota'', ctype = Object,
           cells = [NA, Str (''dice '' @ [CHR 0x22] @ ''hola'' @ [CHR 0x22]), Str ''mayorista'']\<rparr>,
          \<lparr>cname = ''direccion'', ctype = Object,
           cells = [Str ''Calle Mayor 5'', NA, Str ''Av. Libertad, 3'']\<rparr>]\<rparr>
   \<and> map_sum id (map_prod nrows id) (tab4 rx_unused False str_nat envios 1 [''nota'', ''direccion''] ''a'')
     = Inr (1, ''nota,direccion'' @ [CHR 0x0A]
       @ '',Calle Mayor 5'' @ [CHR 0x0A]
       @ [CHR 0x22] @ ''dice '' @ [CHR 0x22, CHR 0x22] @ ''hola'' @ [CHR 0x22, CHR 0x22, CHR 0x22] @ '','' @ [CHR 0x0A]
       @ ''mayorista,'' @ [CHR 0x22] @ ''Av. Libertad, 3'' @ [CHR 0x22, CHR 0x0A])
   \<and> map_sum id snd (tab4 rx_unused False str_nat envios 1 [''nota'', ''direccion''] ''a'')
     = map_sum id snd (tab4 rx_unused False str_nat envios 3 [''nota'', ''direccion''] ''a'')"
proof -
  have d: "display_df rx_unused str_nat envios [''nota'', ''direccion''] ''a''
     = Inr \<lparr>nrows = 3, columns =
         [\<lparr>cname = ''nota'', ctype = Object,
           cells = [NA, Str (''dice '' @ [CHR 0x22] @ ''hola'' @ [CHR 0x22]), Str ''mayorista'']\<rparr>,
          \<lparr>cname = ''direccion'', ctype = Object,
           cells = [Str ''Calle Mayor 5'', NA, Str ''Av. Libertad, 3'']\<rparr>]\<rparr>"
    by code_simp
  have v: "map_sum id (map_prod nrows id) (tab4 rx_unused False str_nat envios 1 [''nota'', ''direccion''] ''a'')
     = Inr (1, ''nota,direccion'' @ [CHR 0x0A]
       @ '',Calle Mayor 5'' @ [CHR 0x0A]
       @ [CHR 0x22] @ ''dice '' @ [CHR 0x22, CHR 0x22] @ ''hola'' @ [CHR 0x22, CHR 0x22, CHR 0x22] @ '','' @ [CHR 0x0A]
       @ ''mayorista,'' @ [CHR 0x22] @ ''Av. Libertad, 3'' @ [CHR 0x22, CHR 0x0A])"
    by code_simp
  from export_ignores_row_cap [OF d, of False 1 3]
  have "map_sum id snd (tab4 rx_unused False str_nat envios 1 [''nota'', ''direccion''] ''a'')
     = map_sum id snd (tab4 rx_unused False str_nat envios 3 [''nota'', ''direccion''] ''a'')"
    by blast
  with d v show ?thesis by (simp only: simp_thms)
qed

subsection \<open>The CSV round trip\<close>

lemma parse_plain:
  "\<not> list_ex (needs_quote q) f \<Longrightarrow>
     csv_parse InField fld rcd (f @ rest) = csv_parse InField (rev f @ fld) rcd rest"
  by (induction f arbitrary: fld) (auto simp add: needs_quote_def)

lemma parse_quoted:
  "csv_parse InQuoted fld rcd (concat (map (\<lambda>c. if c = CHR 0x22 then [c, c] else [c]) f) @ rest)
     = csv_parse InQuoted (rev f @ fld) rcd rest"
  by (induction f arbitrary: fld) auto

lemma parse_field_next:
  assumes t: "t = CHR '','' \<or> t = CHR 0x0A"
  shows "csv_parse FieldStart fld0 rcd (csv_field q f @ t # rest) = finish t f rcd rest"
proof (cases "list_ex (needs_quote q) f")
  case True
  then have "csv_parse FieldStart fld0 rcd (csv_field q f @ t # rest)
      = csv_parse InQuoted [] rcd
          (concat (map (\<lambda>c. if c = CHR 0x22 then [c, c] else [c]) f) @ CHR 0x22 # t # rest)"
    by (simp add: csv_field_def)
  also have "\<dots> = csv_parse InQuoted (rev f) rcd (CHR 0x22 # t # rest)"
    using parse_quoted [of "[]" rcd f "CHR 0x22 # t # rest"] by simp
  also have "\<dots> = finish t f rcd rest"
    using t by (auto simp add: finish_def)
  finally show ?thesis .
next
  case False
  then have cf: "csv_field q f = f" by (simp add: csv_field_def)
  show ?thesis
  proof (cases f)
    case Nil
    with t show ?thesis by (auto simp add: csv_field_def finish_def)
  next
    case (Cons c f')
    with False have c: "c \<noteq> CHR '',''" "c \<noteq> CHR 0x22" "c \<noteq> CHR 0x0A"
      and f': "\<not> list_ex (needs_quote q) f'"
      by (auto simp add: needs_quote_def)
    have "csv_parse FieldStart fld0 rcd (csv_field q f @ t # rest)
        = csv_parse InField [c] rcd (f' @ t # rest)"
      using c cf unfolding Cons by simp
    also have "\<dots> = csv_parse InField (rev f' @ [c]) rcd (t # rest)"
      using f' by (rule parse_plain)
    also have "\<dots> = finish t f rcd rest"
      using t by (auto simp add: finish_def Cons)
    finally show ?thesis .
  qed
qed

lemma parse_first_field:
  assumes t: "t = CHR '','' \<or> t = CHR 0x0A" and ne: "f \<noteq> [] \<or> t = CHR '',''"
  shows "csv_parse RecordStart fld0 rcd0 (csv_field q f @ t # rest) = finish t f [] rest"
proof (cases "list_ex (needs_quote q) f")
  case True
  then have "csv_parse RecordStart fld0 rcd0 (csv_field q f @ t # rest)
      = csv_parse InQuoted [] []
          (concat (map (\<lambda>c. if c = CHR 0x22 then [c, c] else [c]) f) @ CHR 0x22 # t # rest)"
    by (simp add: csv_field_def)
  also have "\<dots> = csv_parse InQuoted (rev f) [] (CHR 0x22 # t # rest)"
    using parse_quoted [of "[]" "[]" f "CHR 0x22 # t # rest"] by simp
  also have "\<dots> = finish t f [] rest"
    using t by (auto simp add: finish_def)
  finally show ?thesis .
next
  case False
  then have cf: "csv_field q f = f" by (simp add: csv_field_def)
  show ?thesis
  proof (cases f)
    case Nil
    with ne show ?thesis by (auto simp add: csv_field_def finish_def)
  next
    case (Cons c f')
    with False have c: "c \<noteq> CHR '',''" "c \<noteq> CHR 0x22" "c \<noteq> CHR 0x0A"
      and f': "\<not> list_ex (needs_quote q) f'"
      by (auto simp add: needs_quote_def)
    have "csv_parse RecordStart fld0 rcd0 (csv_field q f @ t # rest)
        = csv_parse InField [c] [] (f' @ t # rest)"
      using c cf unfolding Cons by simp
    also have "\<dots> = csv_parse InField (rev f' @ [c]) [] (t # rest)"
      using f' by (rule parse_plain)
    also have "\<dots> = finish t f [] rest"
      using t by (auto simp add: finish_def Cons)
    finally show ?thesis .
  qed
qed

lemma parse_fields:
  "csv_parse FieldStart [] rcd (csv_join (map (csv_field q) (f # fs)) @ CHR 0x0A # rest)
     = map_option ((#) (rev rcd @ f # fs)) (csv_parse RecordStart [] [] rest)"
proof (induction fs arbitrary: f rcd)
  case Nil
  show ?case
    using parse_field_next [of "CHR 0x0A" "[]" rcd q f rest] by (simp add: finish_def)
next
  case (Cons g gs)
  have "csv_parse FieldStart [] rcd (csv_join (map (csv_field q) (f # g # gs)) @ CHR 0x0A # rest)
      = csv_parse FieldStart [] rcd
          (csv_field q f @ CHR '','' # (csv_join (map (csv_field q) (g # gs)) @ CHR 0x0A # rest))"
    by simp
  also have "\<dots> = csv_parse FieldStart [] (f # rcd)
                     (csv_join (map (csv_field q) (g # gs)) @ CHR 0x0A # rest)"
    using parse_field_next [of "CHR '',''" "[]" rcd q f] by (simp add: finish_def)
  also have "\<dots> = map_option ((#) (rev (f # rcd) @ g # gs)) (csv_parse RecordStart [] [] rest)"
    by (rule Cons.IH)
  finally show ?case by simp
qed

lemma parse_record:
  "csv_parse RecordStart [] [] (csv_record q fs @ rest)
     = map_option ((#) fs) (csv_parse RecordStart [] [] rest)"
proof (cases fs)
  case Nil
  then show ?thesis by (simp add: csv_record_def)
next
  case (Cons f gs)
  show ?thesis
  proof (cases gs)
    case Nil
    show ?thesis
    proof (cases "f = []")
      case True
      with Nil Cons show ?thesis by (simp add: csv_record_def)
    next
      case False
      with Nil Cons have "csv_record q fs @ rest = csv_field q f @ CHR 0x0A # rest"
        by (simp add: csv_record_def)
      with parse_first_field [of "CHR 0x0A" f "[]" "[]" q rest] False Nil Cons
      show ?thesis by (simp add: finish_def)
    qed
  next
    case (Cons g hs)
    with \<open>fs = f # gs\<close> have fs: "fs = f # g # hs" by simp
    have "csv_record q fs @ rest
        = csv_field q f @ CHR '','' # (csv_join (map (csv_field q) (g # hs)) @ CHR 0x0A # rest)"
      by (simp add: csv_record_def fs)
    then have "csv_parse RecordStart [] [] (csv_record q fs @ rest)
        = csv_parse FieldStart [] [f] (csv_join (map (csv_field q) (g # hs)) @ CHR 0x0A # rest)"
      using parse_first_field [of "CHR '',''" f "[]" "[]" q] by (simp add: finish_def)
    also have "\<dots> = map_option ((#) (rev [f] @ g # hs)) (csv_parse RecordStart [] [] rest)"
      by (rule parse_fields)
    finally show ?thesis by (simp add: fs)
  qed
qed

lemma parse_records:
  "csv_parse RecordStart [] [] (concat (map (csv_record q) recs)) = Some recs"
  by (induction recs) (simp_all add: parse_record)

lemma read_csv_to_csv:
  "read_csv (to_csv q fmt df)
     = Some (map cname (columns df) # map (map (to_csv_cell fmt)) (table_rows df))"
proof -
  have "to_csv q fmt df
      = concat (map (csv_record q) (map cname (columns df) # map (map (to_csv_cell fmt)) (table_rows df)))"
    by (simp add: to_csv_def comp_def)
  then show ?thesis
    by (simp only: read_csv_def parse_records)
qed

lemma count_concat: "count_list (concat xss) a = sum_list (map (\<lambda>xs. count_list xs a) xss)"
  by (induction xss) simp_all

lemma count_csv_field: "count_list (csv_field q f) (CHR 0x0A) = count_list f (CHR 0x0A)"
proof -
  have "count_list (concat (map (\<lambda>c. if c = CHR 0x22 then [c, c] else [c]) f)) (CHR 0x0A)
          = count_list f (CHR 0x0A)"
    by (induction f) simp_all
  then show ?thesis by (simp add: csv_field_def)
qed

lemma count_csv_join:
  "count_list (csv_join fs) (CHR 0x0A) = sum_list (map (\<lambda>f. count_list f (CHR 0x0A)) fs)"
  by (induction fs rule: csv_join.induct) simp_all

lemma count_csv_record:
  "count_list (csv_record q fs) (CHR 0x0A) = 1 + sum_list (map (\<lambda>f. count_list f (CHR 0x0A)) fs)"
  by (simp add: csv_record_def count_csv_join comp_def count_csv_field)

lemma count_csv_records:
  "count_list (concat (map (csv_record q) recs)) (CHR 0x0A)
     = length recs + sum_list (map (\<lambda>f. count_list f (CHR 0x0A)) (concat recs))"
  by (induction recs) (simp_all add: count_csv_record)

text \<open>
  Claim C8, as amended.  For every table, the exported CSV is the record of the column
  names followed by one record per row, each with exactly one field per column, so with no
  index column; reading the text back gives the column names in their order and every
  row's values in their order, each as the text it was written as (a missing value as the
  empty text).  The text has one line feed per record, plus the line feeds that stand
  inside names and values, which the writer puts between double quotes: a record is one
  line exactly when none of its fields holds a line feed, and when no name and no value
  holds one the text is a header line followed by one line per row.
\<close>

theorem csv_round_trip:
  "read_csv (to_csv quote_cr fmt df)
     = Some (map cname (columns df) # map (map (to_csv_cell fmt)) (table_rows df))
   \<and> to_csv quote_cr fmt df
       = csv_record quote_cr (map cname (columns df))
         @ concat (map (\<lambda>r. csv_record quote_cr (map (to_csv_cell fmt) r)) (table_rows df))
   \<and> length (table_rows df) = nrows df
   \<and> map length (table_rows df) = replicate (nrows df) (length (columns df))
   \<and> count_list (to_csv quote_cr fmt df) (CHR 0x0A)
       = 1 + nrows df
         + sum_list (map (\<lambda>f. count_list f (CHR 0x0A))
             (concat (map cname (columns df) # map (map (to_csv_cell fmt)) (table_rows df))))
   \<and> ((\<forall>f \<in> set (concat (map cname (columns df) # map (map (to_csv_cell fmt)) (table_rows df))).
          CHR 0x0A \<notin> set f)
        \<longrightarrow> count_list (to_csv quote_cr fmt df) (CHR 0x0A) = 1 + nrows df)"
proof (intro conjI impI)
  show "read_csv (to_csv quote_cr fmt df)
     = Some (map cname (columns df) # map (map (to_csv_cell fmt)) (table_rows df))"
    by (rule read_csv_to_csv)
  show "to_csv quote_cr fmt df
       = csv_record quote_cr (map cname (columns df))
         @ concat (map (\<lambda>r. csv_record quote_cr (map (to_csv_cell fmt) r)) (table_rows df))"
    by (simp add: to_csv_def)
  show n: "length (table_rows df) = nrows df"
    by (simp add: table_rows_def)
  show "map length (table_rows df) = replicate (nrows df) (length (columns df))"
    by (simp add: table_rows_def row_at_def comp_def map_replicate_const)
  let ?fs = "concat (map cname (columns df) # map (map (to_csv_cell fmt)) (table_rows df))"
  have "to_csv quote_cr fmt df
      = concat (map (csv_record quote_cr)
          (map cname (columns df) # map (map (to_csv_cell fmt)) (table_rows df)))"
    by (simp add: to_csv_def comp_def)
  then have "count_list (to_csv quote_cr fmt df) (CHR 0x0A)
      = length (map cname (columns df) # map (map (to_csv_cell fmt)) (table_rows df))
        + sum_list (map (\<lambda>f. count_list f (CHR 0x0A)) ?fs)"
    by (simp only: count_csv_records)
  then show c: "count_list (to_csv quote_cr fmt df) (CHR 0x0A)
       = 1 + nrows df + sum_list (map (\<lambda>f. count_list f (CHR 0x0A)) ?fs)"
    by (simp add: n)
  assume "\<forall>f \<in> set ?fs. CHR 0x0A \<notin> set f"
  then have "map (\<lambda>f. count_list f (CHR 0x0A)) ?fs = map (\<lambda>f. 0) ?fs"
    by (intro map_cong refl) (simp add: count_list_0_iff)
  then have "sum_list (map (\<lambda>f. count_list f (CHR 0x0A)) ?fs) = 0"
    by (simp only: map_replicate_const sum_list_replicate)
  with c show "count_list (to_csv quote_cr fmt df) (CHR 0x0A) = 1 + nrows df"
    by simp
qed

theorem csv_round_trip_witness:
  "read_csv (to_csv False str_nat envios)
     = Some [[''direccion'', ''piso'', ''nota''],
             [''Calle Mayor 5'', ''2'', []],
             [[], ''11'', ''dice '' @ [CHR 0x22] @ ''hola'' @ [CHR 0x22]],
             [''Av. Libertad, 3'', [], ''mayorista'']]
   \<and> to_csv False str_nat envios
     = ''direccion,piso,nota'' @ [CHR 0x0A]
       @ ''Calle Mayor 5,2,'' @ [CHR 0x0A]
       @ '',11,'' @ [CHR 0x22] @ ''dice '' @ [CHR 0x22, CHR 0x22] @ ''hola'' @ [CHR 0x22, CHR 0x22, CHR 0x22, CHR 0x0A]
       @ [CHR 0x22] @ ''Av. Libertad, 3'' @ [CHR 0x22] @ '',,mayorista'' @ [CHR 0x0A]
   \<and> list_all (\<lambda>f. CHR 0x0A \<notin> set f)
        (concat (map cname (columns envios) # map (map (to_csv_cell str_nat)) (table_rows envios)))
   \<and> count_list (to_csv False str_nat envios) (CHR 0x0A) = 1 + nrows envios
   \<and> nrows envios = 3"
proof -
  have r: "map cname (columns envios) # map (map (to_csv_cell str_nat)) (table_rows envios)
     = [[''direccion'', ''piso'', ''nota''],
             [''Calle Mayor 5'', ''2'', []],
             [[], ''11'', ''dice '' @ [CHR 0x22] @ ''hola'' @ [CHR 0x22]],
             [''Av. Libertad, 3'', [], ''mayorista'']]"
    by code_simp
  have c: "to_csv False str_nat envios
     = ''direccion,piso,nota'' @ [CHR 0x0A]
       @ ''Calle Mayor 5,2,'' @ [CHR 0x0A]
       @ '',11,'' @ [CHR 0x22] @ ''dice '' @ [CHR 0x22, CHR 0x22] @ ''hola'' @ [CHR 0x22, CHR 0x22, CHR 0x22, CHR 0x0A]
       @ [CHR 0x22] @ ''Av. Libertad, 3'' @ [CHR 0x22] @ '',,mayorista'' @ [CHR 0x0A]"
    by code_simp
  have l: "list_all (\<lambda>f. CHR 0x0A \<notin> set f)
        (concat (map cname (columns envios) # map (map (to_csv_cell str_nat)) (table_rows envios)))"
    by code_simp
  have n: "nrows envios = 3" by code_simp
  note t = csv_round_trip [of False str_nat envios]
  from t have "read_csv (to_csv False str_nat envios)
     = Some (map cname (columns envios) # map (map (to_csv_cell str_nat)) (table_rows envios))"
    by (rule conjunct1)
  then have a: "read_csv (to_csv False str_nat envios)
     = Some [[''direccion'', ''piso'', ''nota''],
             [''Calle Mayor 5'', ''2'', []],
             [[], ''11'', ''dice '' @ [CHR 0x22] @ ''hola'' @ [CHR 0x22]],
             [''Av. Libertad, 3'', [], ''mayorista'']]"
    by (simp only: r)
  from l have "\<forall>f \<in> set (concat (map cname (columns envios)
        # map (map (to_csv_cell str_nat)) (table_rows envios))). CHR 0x0A \<notin> set f"
    by (simp only: list_all_iff)
  with t have k: "count_list (to_csv False str_nat envios) (CHR 0x0A) = 1 + nrows envios"
    by blast
  from a c l k n show ?thesis by (intro conjI)
qed

text \<open>
  Claim C8, as stated, fails on a value that holds a line feed: one row, whose cell is
  two lines of text, is exported as a header line followed by two lines.
\<close>

theorem csv_row_spans_lines:
  "to_csv False str_nat
     \<lparr>nrows = 1, columns = [\<lparr>cname = ''nota'', ctype = Object,
        cells = [Str (''uno'' @ [CHR 0x0A] @ ''dos'')]\<rparr>]\<rparr>
     = ''nota'' @ [CHR 0x0A] @ [CHR 0x22] @ ''uno'' @ [CHR 0x0A] @ ''dos'' @ [CHR 0x22] @ [CHR 0x0A]
   \<and> count_list (to_csv False str_nat
        \<lparr>nrows = 1, columns = [\<lparr>cname = ''nota'', ctype = Object,
           cells = [Str (''uno'' @ [CHR 0x0A] @ ''dos'')]\<rparr>]\<rparr>) (CHR 0x0A) = 3"
  by code_simp

end
